theory Spec2Isabelle
  imports Main "HOL-Library.Word"
begin

section \<open>The external scanner of tree-sitter-vim9 (src/scanner.c)\<close>

text \<open>
  The scanner is embedded function by function.  A C \<^verbatim>\<open>char\<close> is an \<open>8 word\<close>; the
  lexer's \<^verbatim>\<open>int32_t lookahead\<close> is an \<open>int\<close> (no arithmetic is done on it).  Storing
  the lookahead into a \<^verbatim>\<open>char\<close> truncates it (\<open>word_of_int\<close>); comparing a \<^verbatim>\<open>char\<close>
  with the lookahead promotes the \<^verbatim>\<open>char\<close> to \<^verbatim>\<open>int\<close>, read here as a signed
  \<^verbatim>\<open>char\<close> (\<open>sint\<close>).
\<close>

subsection \<open>Data\<close>

type_synonym cchar = "8 word"

definition HEREDOC_MARKER_LEN :: nat where
  "HEREDOC_MARKER_LEN = 32"

record Scanner =
  separator :: cchar
  ignore_comments :: bool
  marker_len :: "8 word"
  heredoc_marker :: "cchar list"

record keyword =
  mandat :: "cchar list"
  opt :: "cchar list"
  ignore_comments_after :: bool

text \<open>
  \<^verbatim>\<open>enum TokenType\<close>.  The enumerators after \<^verbatim>\<open>KEYWORDS_BASE\<close> are addressed in the source
  as \<^verbatim>\<open>t + KEYWORDS_BASE\<close>; \<open>KEYWORD t\<close> stands for that sum.
\<close>

datatype TokenType =
    NO
  | INV
  | CMD_SEPARATOR
  | LINE_CONTINUATION
  | SCRIPT_HEREDOC_MARKER
  | LET_HEREDOC_MARKER
  | HEREDOC_END
  | SEP_FIRST
  | SEP
  | SCOPE_DICT
  | SCOPE
  | STRING
  | COMMENT
  | LINE_CONTINUATION_COMMENT
  | BANG_FILTER
  | KEYWORD nat

datatype error = AssertionFailed

text \<open>
  The character classes of \<^verbatim>\<open><wctype.h>\<close> depend on the C library and its locale; they
  are taken as a parameter of the scanner.
\<close>

record wctype =
  iswlower :: "int \<Rightarrow> bool"
  iswpunct :: "int \<Rightarrow> bool"
  iswalnum :: "int \<Rightarrow> bool"
  iswalpha :: "int \<Rightarrow> bool"

text \<open>The classes of the "C" locale, for concrete runs.\<close>

definition c_locale :: wctype where
  "c_locale =
     \<lparr> iswlower = (\<lambda>c. 97 \<le> c \<and> c \<le> 122),
       iswpunct = (\<lambda>c. (33 \<le> c \<and> c \<le> 47) \<or> (58 \<le> c \<and> c \<le> 64)
                       \<or> (91 \<le> c \<and> c \<le> 96) \<or> (123 \<le> c \<and> c \<le> 126)),
       iswalnum = (\<lambda>c. (48 \<le> c \<and> c \<le> 57) \<or> (65 \<le> c \<and> c \<le> 90) \<or> (97 \<le> c \<and> c \<le> 122)),
       iswalpha = (\<lambda>c. (65 \<le> c \<and> c \<le> 90) \<or> (97 \<le> c \<and> c \<le> 122)) \<rparr>"

text \<open>Character literals of the source, as values of the lookahead.\<close>

definition chr :: "char \<Rightarrow> int" where
  "chr c = of_char c"

definition NUL :: int where "NUL = 0"
definition TAB :: int where "TAB = 9"
definition NEWLINE :: int where "NEWLINE = 10"
definition DQUOTE :: int where "DQUOTE = 34"
definition SQUOTE :: int where "SQUOTE = 39"
definition BACKSLASH :: int where "BACKSLASH = 92"

definition cstring :: "string \<Rightarrow> cchar list" where
  "cstring s = map of_char s"

definition IS_SPACE_TABS :: "int \<Rightarrow> bool" where
  "IS_SPACE_TABS c \<longleftrightarrow> c = chr CHR '' '' \<or> c = TAB"

subsection \<open>The lexer handed in by the host\<close>

text \<open>
  \<^verbatim>\<open>TSLexer\<close> is the host's cursor: the current character, \<^verbatim>\<open>advance\<close> (with a flag
  that leaves the character out of the token), \<^verbatim>\<open>mark_end\<close> and the result symbol.
  The remaining input is a list of code points; at its end the lookahead is 0 and
  advancing changes nothing.
\<close>

record TSLexer =
  input :: "int list"
  position :: nat
  token_start :: nat
  token_end :: "nat option"
  result_symbol :: TokenType

definition lookahead :: "TSLexer \<Rightarrow> int" where
  "lookahead lx = (case input lx of [] \<Rightarrow> 0 | c # _ \<Rightarrow> c)"

definition advance :: "TSLexer \<Rightarrow> bool \<Rightarrow> TSLexer" where
  "advance lx skip =
     (case input lx of
        [] \<Rightarrow> lx
      | c # cs \<Rightarrow>
          lx\<lparr> input := cs, position := Suc (position lx),
              token_start := (if skip then Suc (position lx) else token_start lx) \<rparr>)"

definition mark_end :: "TSLexer \<Rightarrow> TSLexer" where
  "mark_end lx = lx\<lparr> token_end := Some (position lx) \<rparr>"

subsection \<open>Creation and the state codec\<close>

text \<open>\<^verbatim>\<open>memset(p, c, n)\<close> on the bytes from offset \<open>off\<close> of an array.\<close>

definition memset :: "cchar list \<Rightarrow> nat \<Rightarrow> cchar \<Rightarrow> nat \<Rightarrow> cchar list" where
  "memset arr off c n = take off arr @ replicate n c @ drop (off + n) arr"

text \<open>
  \<^verbatim>\<open>strncpy(dst, src, n)\<close>: the characters of \<open>src\<close> before its first nul, at most \<open>n\<close> of
  them, then nuls up to \<open>n\<close> bytes in all; the rest of \<open>dst\<close> is kept.
\<close>

definition strncpy :: "cchar list \<Rightarrow> cchar list \<Rightarrow> nat \<Rightarrow> cchar list" where
  "strncpy dst src n =
     (let pre = takeWhile (\<lambda>c. c \<noteq> 0) (take n src)
      in pre @ replicate (n - length pre) 0 @ drop n dst)"

definition tree_sitter_vim_external_scanner_create :: Scanner where
  "tree_sitter_vim_external_scanner_create =
     \<lparr> separator = 0, ignore_comments = False, marker_len = 0,
       heredoc_marker = replicate HEREDOC_MARKER_LEN 0 \<rparr>"

definition SC_IGNORE_COMMENTS :: nat where "SC_IGNORE_COMMENTS = 0"
definition SC_PAIRED_SEP :: nat where "SC_PAIRED_SEP = 1"
definition SC_MARK_LEN :: nat where "SC_MARK_LEN = 2"
definition SC_MARK :: nat where "SC_MARK = 3"

text \<open>
  \<^verbatim>\<open>serialize\<close> writes into the host's buffer and returns the number of bytes written;
  the result here is that number and the buffer after the writes.
\<close>

definition tree_sitter_vim_external_scanner_serialize ::
    "Scanner \<Rightarrow> cchar list \<Rightarrow> nat \<times> cchar list" where
  "tree_sitter_vim_external_scanner_serialize s buffer =
     (let b1 = buffer[SC_PAIRED_SEP := separator s];
          b2 = b1[SC_IGNORE_COMMENTS := of_bool (ignore_comments s)];
          b3 = b2[SC_MARK_LEN := marker_len s];
          b4 = take SC_MARK b3 @ strncpy (drop SC_MARK b3) (heredoc_marker s) (unat (marker_len s))
      in (unat (marker_len s) + SC_MARK, b4))"

text \<open>The byte sequence the host stores: the first \<open>n\<close> bytes of the buffer.\<close>

definition serialized :: "Scanner \<Rightarrow> cchar list \<Rightarrow> cchar list" where
  "serialized s buffer =
     (case tree_sitter_vim_external_scanner_serialize s buffer of (n, b) \<Rightarrow> take n b)"

text \<open>
  \<^verbatim>\<open>deserialize\<close> gets the stored bytes; \<open>length buffer\<close> is its \<^verbatim>\<open>length\<close> argument.
  With one or two bytes the reads of \<^verbatim>\<open>buffer[1]\<close> and \<^verbatim>\<open>buffer[2]\<close> leave the stored
  bytes, and whatever they yield the first assertion fails, since
  \<^verbatim>\<open>marker_len + SC_MARK\<close> is at least 3.
\<close>

definition tree_sitter_vim_external_scanner_deserialize ::
    "Scanner \<Rightarrow> cchar list \<Rightarrow> error + Scanner" where
  "tree_sitter_vim_external_scanner_deserialize s buffer =
     (if length buffer = 0 then Inr s
      else if length buffer < SC_MARK then Inl AssertionFailed
      else
        let s1 = s\<lparr> ignore_comments := (buffer ! SC_IGNORE_COMMENTS \<noteq> 0) \<rparr>;
            s2 = s1\<lparr> separator := buffer ! SC_PAIRED_SEP \<rparr>;
            s3 = s2\<lparr> marker_len := buffer ! SC_MARK_LEN \<rparr>
        in if unat (marker_len s3) + SC_MARK \<noteq> length buffer then Inl AssertionFailed
           else if \<not> unat (marker_len s3) < HEREDOC_MARKER_LEN then Inl AssertionFailed
           else if unat (marker_len s3) > 0
             then Inr (s3\<lparr> heredoc_marker :=
                           strncpy (heredoc_marker s3) (drop SC_MARK buffer) (unat (marker_len s3)) \<rparr>)
             else Inr s3)"

subsection \<open>Primitive lexers\<close>

function skip_space_tabs :: "TSLexer \<Rightarrow> TSLexer" where
  "skip_space_tabs lx =
     (if IS_SPACE_TABS (lookahead lx) then skip_space_tabs (advance lx True) else lx)"
  by pat_completeness auto
termination
  by (relation "measure (\<lambda>lx. length (input lx))")
     (auto simp: IS_SPACE_TABS_def lookahead_def advance_def chr_def TAB_def split: list.splits)

declare skip_space_tabs.simps [simp del]

text \<open>The loop of \<^verbatim>\<open>check_prefix\<close> over \<^verbatim>\<open>prefix[0 .. prefix_len)\<close>.\<close>

fun check_prefix_loop :: "TSLexer \<Rightarrow> cchar list \<Rightarrow> bool \<times> TSLexer" where
  "check_prefix_loop lx [] = (True, lx)"
| "check_prefix_loop lx (c # cs) =
     (if lookahead lx = sint c then check_prefix_loop (advance lx False) cs else (False, lx))"

definition check_prefix :: "TSLexer \<Rightarrow> cchar list \<Rightarrow> nat \<Rightarrow> TokenType \<Rightarrow> bool \<times> TSLexer" where
  "check_prefix lx prefix prefix_len token =
     (case check_prefix_loop lx (take prefix_len prefix) of
        (False, lx') \<Rightarrow> (False, lx')
      | (True, lx') \<Rightarrow> (True, lx'\<lparr> result_symbol := token \<rparr>))"

text \<open>
  The capture loop of \<^verbatim>\<open>try_lex_heredoc_marker\<close>; \<open>marker\<close> holds the first
  \<^verbatim>\<open>marker_len\<close> bytes of the local array, whose other bytes are nul.
\<close>

function try_lex_heredoc_marker_loop :: "TSLexer \<Rightarrow> cchar list \<Rightarrow> cchar list \<times> TSLexer" where
  "try_lex_heredoc_marker_loop lx marker =
     (if \<not> IS_SPACE_TABS (lookahead lx) \<and> lookahead lx \<noteq> 0 \<and> lookahead lx \<noteq> NEWLINE
         \<and> length marker < HEREDOC_MARKER_LEN
      then try_lex_heredoc_marker_loop (advance lx False) (marker @ [word_of_int (lookahead lx)])
      else (marker, lx))"
  by pat_completeness auto
termination
  by (relation "measure (\<lambda>(lx, marker). HEREDOC_MARKER_LEN - length marker)") auto

declare try_lex_heredoc_marker_loop.simps [simp del]

definition try_lex_heredoc_marker :: "wctype \<Rightarrow> Scanner \<Rightarrow> TSLexer \<Rightarrow> bool \<times> Scanner \<times> TSLexer" where
  "try_lex_heredoc_marker ct scanner lx =
     (if iswlower ct (lookahead lx) then (False, scanner, lx)
      else
        case try_lex_heredoc_marker_loop lx [] of
          (marker, lx') \<Rightarrow>
            if length marker = HEREDOC_MARKER_LEN \<or> length marker = 0 then (False, scanner, lx')
            else
              let s1 = scanner\<lparr> heredoc_marker :=
                                 strncpy (heredoc_marker scanner) marker (length marker) \<rparr>;
                  s2 = s1\<lparr> marker_len := of_nat (length marker) \<rparr>;
                  s3 = s2\<lparr> heredoc_marker :=
                            memset (heredoc_marker s2) (length marker) 0
                                   (HEREDOC_MARKER_LEN - length marker) \<rparr>
              in (True, s3, lx'))"

definition is_valid_string_delim :: "cchar \<Rightarrow> bool" where
  "is_valid_string_delim c \<longleftrightarrow> sint c = SQUOTE \<or> sint c = DQUOTE"

lemma length_input_advance: "length (input (advance lx skip)) \<le> length (input lx)"
  by (simp add: advance_def split: list.splits)

lemma length_input_advance_less:
  "lookahead lx \<noteq> 0 \<Longrightarrow> length (input (advance lx skip)) < length (input lx)"
  by (simp add: advance_def lookahead_def split: list.splits)

lemma length_input_skip_space_tabs: "length (input (skip_space_tabs lx)) \<le> length (input lx)"
proof (induction lx rule: skip_space_tabs.induct)
  case (1 lx)
  show ?case
  proof (cases "IS_SPACE_TABS (lookahead lx)")
    case True
    with 1 have "length (input (skip_space_tabs (advance lx True))) \<le> length (input (advance lx True))"
      by simp
    also have "\<dots> \<le> length (input lx)" by (rule length_input_advance)
    finally show ?thesis using True by (subst skip_space_tabs.simps) simp
  next
    case False
    then show ?thesis by (subst skip_space_tabs.simps) simp
  qed
qed

function lex_literal_string :: "TSLexer \<Rightarrow> bool \<times> TSLexer" where
  "lex_literal_string lx =
     (if lookahead lx = SQUOTE then
        (if lookahead (advance lx False) = SQUOTE
         then lex_literal_string (advance (advance lx False) False)
         else (True, mark_end ((advance lx False)\<lparr> result_symbol := STRING \<rparr>)))
      else if lookahead lx = NEWLINE then
        (if lookahead (skip_space_tabs (advance (mark_end lx) True)) \<noteq> BACKSLASH
         then (False, skip_space_tabs (advance (mark_end lx) True))
         else lex_literal_string (skip_space_tabs (advance (mark_end lx) True)))
      else if lookahead lx = NUL then (False, lx)
      else lex_literal_string (advance lx False))"
  by pat_completeness auto
termination
proof (relation "measure (\<lambda>lx. length (input lx))", goal_cases)
  case 1
  show ?case by simp
next
  case (2 lx)
  then have "lookahead lx \<noteq> 0" by (simp add: SQUOTE_def)
  then have "length (input (advance lx False)) < length (input lx)"
    by (rule length_input_advance_less)
  moreover have "length (input (advance (advance lx False) False)) \<le> length (input (advance lx False))"
    by (rule length_input_advance)
  ultimately show ?case by simp
next
  case (3 lx)
  then have "lookahead (mark_end lx) \<noteq> 0" by (simp add: NEWLINE_def lookahead_def mark_end_def)
  then have "length (input (advance (mark_end lx) True)) < length (input (mark_end lx))"
    by (rule length_input_advance_less)
  moreover have "length (input (skip_space_tabs (advance (mark_end lx) True)))
      \<le> length (input (advance (mark_end lx) True))"
    by (rule length_input_skip_space_tabs)
  ultimately show ?case by (simp add: mark_end_def)
next
  case (4 lx)
  then have "lookahead lx \<noteq> 0" by (simp add: NUL_def)
  then have "length (input (advance lx False)) < length (input lx)"
    by (rule length_input_advance_less)
  then show ?case by simp
qed

declare lex_literal_string.simps [simp del]

function lex_escapable_string :: "TSLexer \<Rightarrow> bool \<times> TSLexer" where
  "lex_escapable_string lx =
     (if lookahead lx = BACKSLASH then
        lex_escapable_string (advance (advance lx False) False)
      else if lookahead lx = DQUOTE then
        (True, (mark_end (advance lx False))\<lparr> result_symbol := STRING \<rparr>)
      else if lookahead lx = NEWLINE then
        (if lookahead (skip_space_tabs (advance (mark_end lx) False)) \<noteq> BACKSLASH
         then (True, (mark_end (skip_space_tabs (advance (mark_end lx) False)))
                       \<lparr> result_symbol := COMMENT \<rparr>)
         else lex_escapable_string (skip_space_tabs (advance (mark_end lx) False)))
      else if lookahead lx = NUL then (False, lx)
      else lex_escapable_string (advance lx False))"
  by pat_completeness auto
termination
proof (relation "measure (\<lambda>lx. length (input lx))", goal_cases)
  case 1
  show ?case by simp
next
  case (2 lx)
  then have "lookahead lx \<noteq> 0" by (simp add: BACKSLASH_def)
  then have "length (input (advance lx False)) < length (input lx)"
    by (rule length_input_advance_less)
  moreover have "length (input (advance (advance lx False) False)) \<le> length (input (advance lx False))"
    by (rule length_input_advance)
  ultimately show ?case by simp
next
  case (3 lx)
  then have "lookahead (mark_end lx) \<noteq> 0" by (simp add: NEWLINE_def lookahead_def mark_end_def)
  then have "length (input (advance (mark_end lx) False)) < length (input (mark_end lx))"
    by (rule length_input_advance_less)
  moreover have "length (input (skip_space_tabs (advance (mark_end lx) False)))
      \<le> length (input (advance (mark_end lx) False))"
    by (rule length_input_skip_space_tabs)
  ultimately show ?case by (simp add: mark_end_def)
next
  case (4 lx)
  then have "lookahead lx \<noteq> 0" by (simp add: NUL_def)
  then have "length (input (advance lx False)) < length (input lx)"
    by (rule length_input_advance_less)
  then show ?case by simp
qed

declare lex_escapable_string.simps [simp del]

text \<open>
  \<^verbatim>\<open>lex_string\<close> keeps the delimiter in a \<^verbatim>\<open>char\<close>, and \<^verbatim>\<open>is_valid_string_delim\<close>
  takes a \<^verbatim>\<open>char\<close>: both see the lookahead truncated.  The \<^verbatim>\<open>default\<close> branch is
  \<^verbatim>\<open>assert(0)\<close>.
\<close>

definition lex_string :: "TSLexer \<Rightarrow> error + (bool \<times> TSLexer)" where
  "lex_string lx =
     (if \<not> is_valid_string_delim (word_of_int (lookahead lx)) then Inr (False, lx)
      else
        let string_delim = (word_of_int (lookahead lx) :: cchar);
            lx1 = advance lx False
        in if sint string_delim = DQUOTE then Inr (lex_escapable_string lx1)
           else if sint string_delim = SQUOTE then Inr (lex_literal_string lx1)
           else Inl AssertionFailed)"

subsection \<open>Keyword matcher\<close>

text \<open>
  C strings are lists of bytes; reading at the length of the list reads the terminating
  nul, and \<^verbatim>\<open>strlen\<close> counts up to the first nul.
\<close>

definition cnth :: "cchar list \<Rightarrow> nat \<Rightarrow> cchar" where
  "cnth s i = (if i < length s then s ! i else 0)"

definition strlen :: "cchar list \<Rightarrow> nat" where
  "strlen s = length (takeWhile (\<lambda>c. c \<noteq> 0) s)"

text \<open>The first loop of \<^verbatim>\<open>try_lex_keyword\<close>: \<open>None\<close> is its \<^verbatim>\<open>return false\<close>.\<close>

function try_lex_keyword_mandat :: "cchar list \<Rightarrow> cchar list \<Rightarrow> nat \<Rightarrow> nat option" where
  "try_lex_keyword_mandat possible m i =
     (if cnth m i \<noteq> 0 \<and> cnth possible i \<noteq> 0 then
        (if cnth possible i \<noteq> cnth m i then None
         else try_lex_keyword_mandat possible m (Suc i))
      else Some i)"
  by pat_completeness auto
termination
  by (relation "measure (\<lambda>(possible, m, i). length m - i)")
     (auto simp: cnth_def split: if_splits)

declare try_lex_keyword_mandat.simps [simp del]

text \<open>The second loop, over the optional part.\<close>

function try_lex_keyword_opt :: "cchar list \<Rightarrow> cchar list \<Rightarrow> nat \<Rightarrow> nat \<Rightarrow> bool" where
  "try_lex_keyword_opt possible ops mandat_len i =
     (if cnth ops i \<noteq> 0 \<and> cnth possible (mandat_len + i) \<noteq> 0 then
        (if cnth possible (mandat_len + i) \<noteq> cnth ops i then False
         else try_lex_keyword_opt possible ops mandat_len (Suc i))
      else True)"
  by pat_completeness auto
termination
  by (relation "measure (\<lambda>(possible, ops, mandat_len, i). length ops - i)")
     (auto simp: cnth_def split: if_splits)

declare try_lex_keyword_opt.simps [simp del]

definition try_lex_keyword :: "cchar list \<Rightarrow> keyword \<Rightarrow> bool" where
  "try_lex_keyword possible kw =
     (if strlen possible > strlen (mandat kw) + strlen (opt kw) then False
      else
        case try_lex_keyword_mandat possible (mandat kw) 0 of
          None \<Rightarrow> False
        | Some i \<Rightarrow>
            if cnth (mandat kw) i \<noteq> 0 \<and> cnth possible i = 0 then False
            else try_lex_keyword_opt possible (opt kw) i 0)"

subsection \<open>Scope lexer\<close>

definition scope_correct :: "TSLexer \<Rightarrow> bool" where
  "scope_correct lx \<longleftrightarrow> list_ex (\<lambda>c. lookahead lx = sint c) (cstring ''lbstvwg<'')"

text \<open>
  The loop of \<^verbatim>\<open>lex_scope\<close> over \<^verbatim>\<open>sid\<close>; it runs while \<^verbatim>\<open>sid[i]\<close> and the lookahead
  are both non-zero.
\<close>

fun lex_scope_sid :: "TSLexer \<Rightarrow> cchar list \<Rightarrow> bool \<times> TSLexer" where
  "lex_scope_sid lx [] = (True, lx)"
| "lex_scope_sid lx (c # cs) =
     (if lookahead lx \<noteq> 0 then
        (if lookahead lx \<noteq> sint c then (False, lx)
         else lex_scope_sid (advance lx False) cs)
      else (True, lx))"

definition lex_scope :: "wctype \<Rightarrow> TSLexer \<Rightarrow> bool \<times> TSLexer" where
  "lex_scope ct lx =
     (if \<not> scope_correct lx then (False, lx)
      else if lookahead lx = chr CHR ''<'' then
        (case lex_scope_sid (advance lx False) (cstring ''SID>'') of
           (False, lx') \<Rightarrow> (False, lx')
         | (True, lx') \<Rightarrow> (True, lx'\<lparr> result_symbol := SCOPE \<rparr>))
      else
        let lx1 = advance lx False
        in if lookahead lx1 \<noteq> chr CHR '':'' then (False, lx1)
           else
             let lx2 = advance lx1 False
             in if iswalnum ct (lookahead lx2) \<or> lookahead lx2 = chr CHR ''{''
                   \<or> lookahead lx2 = chr CHR ''_''
                then (True, lx2\<lparr> result_symbol := SCOPE \<rparr>)
                else (True, lx2\<lparr> result_symbol := SCOPE_DICT \<rparr>))"

subsection \<open>Dispatch: the scan function\<close>

text \<open>The accepted kinds, \<^verbatim>\<open>valid_symbols\<close>.\<close>

type_synonym valid_symbols = "TokenType \<Rightarrow> bool"

text \<open>
  Modelled from the spec: \<^verbatim>\<open>keywords.h\<close> (the table \<^verbatim>\<open>keywords\<close>, the type \<^verbatim>\<open>kwid\<close> and
  its enumerators \<^verbatim>\<open>FUNCTION\<close> and \<^verbatim>\<open>UNKNOWN_COMMAND\<close>) is not among the sources.  The
  table is a parameter \<open>kws\<close> of the scanner, read in table order from its first entry,
  with one kind per entry and the unknown-command kind after the last one.
\<close>

definition FUNCTION :: nat where
  "FUNCTION = 0"

definition UNKNOWN_COMMAND :: "keyword list \<Rightarrow> nat" where
  "UNKNOWN_COMMAND kws = length kws"

definition KEYWORD_SIZE :: nat where
  "KEYWORD_SIZE = 30"

text \<open>The loop that consumes the rest of a continued comment line.\<close>

function scan_rest_of_line :: "TSLexer \<Rightarrow> TSLexer" where
  "scan_rest_of_line lx =
     (if lookahead lx \<noteq> NUL \<and> lookahead lx \<noteq> NEWLINE
      then scan_rest_of_line (advance lx False) else lx)"
  by pat_completeness auto
termination
  by (relation "measure (\<lambda>lx. length (input lx))")
     (auto simp: NUL_def intro: length_input_advance_less)

declare scan_rest_of_line.simps [simp del]

text \<open>The newline rule: the body of \<^verbatim>\<open>if (lexer->lookahead == '\n')\<close>.\<close>

definition scan_newline :: "Scanner \<Rightarrow> TSLexer \<Rightarrow> valid_symbols \<Rightarrow> bool \<times> Scanner \<times> TSLexer" where
  "scan_newline s lx valid =
     (let lx1 = skip_space_tabs (mark_end (advance lx False))
      in if lookahead lx1 = BACKSLASH then
           (let lx2 = advance lx1 False
            in if lookahead lx2 = chr CHR ''/'' \<or> lookahead lx2 = chr CHR ''?''
                  \<or> lookahead lx2 = chr CHR ''&''
               then (if valid CMD_SEPARATOR
                     then (True, s\<lparr> ignore_comments := False \<rparr>,
                           lx2\<lparr> result_symbol := CMD_SEPARATOR \<rparr>)
                     else (False, s, lx2))
               else (True, s, (mark_end lx2)\<lparr> result_symbol := LINE_CONTINUATION \<rparr>))
         else
           (let r = (if marker_len s = 0
                     then check_prefix lx1 [34, 92, 32] 3 LINE_CONTINUATION_COMMENT
                     else (False, lx1))
            in if fst r then (True, s, mark_end (scan_rest_of_line (snd r)))
               else if valid CMD_SEPARATOR
               then (True, s\<lparr> ignore_comments := False \<rparr>,
                     (snd r)\<lparr> result_symbol := CMD_SEPARATOR \<rparr>)
               else (False, s, snd r)))"

text \<open>The heredoc terminator: the body of \<^verbatim>\<open>if (valid_symbols[HEREDOC_END])\<close>.\<close>

definition scan_heredoc_end :: "Scanner \<Rightarrow> TSLexer \<Rightarrow> bool \<times> Scanner \<times> TSLexer" where
  "scan_heredoc_end s lx =
     (let marker_len' = (if marker_len s \<noteq> 0 then marker_len s else 1);
          marker = (if marker_len s \<noteq> 0 then heredoc_marker s else cstring ''.'')
      in case check_prefix lx marker (unat marker_len') HEREDOC_END of
           (False, lx') \<Rightarrow> (False, s, lx')
         | (True, lx') \<Rightarrow>
             if lookahead lx' \<noteq> NUL \<and> lookahead lx' \<noteq> NEWLINE then (False, s, lx')
             else (True,
                   s\<lparr> marker_len := 0,
                      heredoc_marker := memset (heredoc_marker s) 0 0 HEREDOC_MARKER_LEN \<rparr>,
                   lx'))"

text \<open>The \<^verbatim>\<open>do ... while\<close> loop of the comment rule.\<close>

function scan_comment :: "TSLexer \<Rightarrow> TSLexer" where
  "scan_comment lx =
     (if lookahead (advance lx False) \<noteq> NEWLINE \<and> lookahead (advance lx False) \<noteq> NUL
      then scan_comment (advance lx False) else advance lx False)"
  by pat_completeness auto
termination
  by (relation "measure (\<lambda>lx. length (input lx))")
     (auto simp: NUL_def advance_def lookahead_def split: list.splits)

declare scan_comment.simps [simp del]

text \<open>
  The capture loop of the keyword rule; \<open>kw\<close> holds \<^verbatim>\<open>keyword[0 .. i)\<close>, so \<open>length kw\<close>
  is the loop counter \<^verbatim>\<open>i\<close>.
\<close>

function scan_keyword_run :: "wctype \<Rightarrow> TSLexer \<Rightarrow> cchar list \<Rightarrow> cchar list \<times> TSLexer" where
  "scan_keyword_run ct lx kw =
     (if length kw < KEYWORD_SIZE \<and> iswalpha ct (lookahead lx)
      then scan_keyword_run ct (advance lx False) (kw @ [word_of_int (lookahead lx)])
      else (kw, lx))"
  by pat_completeness auto
termination
  by (relation "measure (\<lambda>(ct, lx, kw). KEYWORD_SIZE - length kw)") auto

declare scan_keyword_run.simps [simp del]

text \<open>The loop over the table: the first accepted entry that matches.\<close>

function scan_keyword_table :: "valid_symbols \<Rightarrow> keyword list \<Rightarrow> cchar list \<Rightarrow> nat \<Rightarrow> nat option" where
  "scan_keyword_table valid kws possible t =
     (if t < UNKNOWN_COMMAND kws then
        (if valid (KEYWORD t) \<and> try_lex_keyword possible (kws ! t) then Some t
         else scan_keyword_table valid kws possible (Suc t))
      else None)"
  by pat_completeness auto
termination
  by (relation "measure (\<lambda>(valid, kws, possible, t). UNKNOWN_COMMAND kws - t)") auto

declare scan_keyword_table.simps [simp del]

text \<open>The keyword rule from the capture loop on; \<open>lx\<close> is past the first letter.\<close>

definition scan_keyword_match ::
    "wctype \<Rightarrow> keyword list \<Rightarrow> Scanner \<Rightarrow> TSLexer \<Rightarrow> cchar \<Rightarrow> valid_symbols
       \<Rightarrow> bool \<times> Scanner \<times> TSLexer" where
  "scan_keyword_match ct kws s lx c0 valid =
     (case scan_keyword_run ct lx [c0] of
        (kw, lx') \<Rightarrow>
          if length kw = KEYWORD_SIZE then (False, s, lx')
          else
            case scan_keyword_table valid kws kw FUNCTION of
              Some t \<Rightarrow>
                (True, s\<lparr> ignore_comments := ignore_comments_after (kws ! t) \<rparr>,
                 lx'\<lparr> result_symbol := KEYWORD t \<rparr>)
            | None \<Rightarrow>
                if valid (KEYWORD (UNKNOWN_COMMAND kws))
                then (True, s, lx'\<lparr> result_symbol := KEYWORD (UNKNOWN_COMMAND kws) \<rparr>)
                else (False, s, lx'))"

text \<open>The keyword rule: the body of the last \<^verbatim>\<open>if\<close> of the scan function and its fall-through.\<close>

definition scan_keyword ::
    "wctype \<Rightarrow> keyword list \<Rightarrow> Scanner \<Rightarrow> TSLexer \<Rightarrow> valid_symbols \<Rightarrow> bool \<times> Scanner \<times> TSLexer" where
  "scan_keyword ct kws s lx valid =
     (if iswlower ct (lookahead lx) then
        (let c0 = word_of_int (lookahead lx)
         in if lookahead lx \<noteq> 0 \<and>
               (lookahead lx = chr CHR ''g'' \<or> lookahead lx = chr CHR ''b'' \<or>
                lookahead lx = chr CHR ''l'' \<or> lookahead lx = chr CHR ''t'' \<or>
                lookahead lx = chr CHR ''w'' \<or> lookahead lx = chr CHR ''s'' \<or>
                lookahead lx = chr CHR ''v'')
            then
              (let lx1 = advance lx False
               in if lookahead lx1 = chr CHR '':''
                  then (True, s, (advance lx1 False)\<lparr> result_symbol := SCOPE \<rparr>)
                  else scan_keyword_match ct kws s lx1 c0 valid)
            else scan_keyword_match ct kws s (advance lx False) c0 valid)
      else (False, s, lx))"

definition tree_sitter_vim_external_scanner_scan ::
    "wctype \<Rightarrow> keyword list \<Rightarrow> Scanner \<Rightarrow> TSLexer \<Rightarrow> valid_symbols
       \<Rightarrow> error + (bool \<times> Scanner \<times> TSLexer)" where
  "tree_sitter_vim_external_scanner_scan ct kws s lexer valid =
     (if \<not> valid LINE_CONTINUATION then Inl AssertionFailed
      else
        let lx = skip_space_tabs lexer
        in if lookahead lx = 0 then Inr (False, s, lx)
           else if valid SEP_FIRST \<and> iswpunct ct (lookahead lx) then
             Inr (True,
                  s\<lparr> separator := word_of_int (lookahead lx), ignore_comments := True \<rparr>,
                  (advance lx False)\<lparr> result_symbol := SEP_FIRST \<rparr>)
           else if valid SEP \<and> sint (separator s) = lookahead lx then
             Inr (True, s\<lparr> ignore_comments := False \<rparr>,
                  (advance lx False)\<lparr> result_symbol := SEP \<rparr>)
           else if valid BANG_FILTER \<and> lookahead lx = chr CHR ''!'' then
             Inr (True, s\<lparr> ignore_comments := True \<rparr>,
                  (advance lx False)\<lparr> result_symbol := BANG_FILTER \<rparr>)
           else if valid NO \<and> lookahead lx = chr CHR ''n'' then
             Inr (case check_prefix lx (cstring ''no'') 2 NO of (b, lx') \<Rightarrow> (b, s, lx'))
           else if valid INV \<and> lookahead lx = chr CHR ''i'' then
             Inr (case check_prefix lx (cstring ''inv'') 3 INV of (b, lx') \<Rightarrow> (b, s, lx'))
           else if lookahead lx = NEWLINE then Inr (scan_newline s lx valid)
           else if valid CMD_SEPARATOR \<and> lookahead lx = chr CHR ''|'' then
             (let lx1 = advance lx False
              in if lookahead lx1 = chr CHR ''|'' then Inr (False, s, lx1)
                 else Inr (True, s, lx1\<lparr> result_symbol := CMD_SEPARATOR \<rparr>))
           else if scope_correct lx \<and> (valid SCOPE_DICT \<or> valid SCOPE) then
             Inr (case lex_scope ct lx of (b, lx') \<Rightarrow> (b, s, lx'))
           else if valid SCRIPT_HEREDOC_MARKER then
             Inr (try_lex_heredoc_marker ct s (lx\<lparr> result_symbol := SCRIPT_HEREDOC_MARKER \<rparr>))
           else if valid LET_HEREDOC_MARKER then
             Inr (try_lex_heredoc_marker ct s (lx\<lparr> result_symbol := LET_HEREDOC_MARKER \<rparr>))
           else if valid HEREDOC_END then Inr (scan_heredoc_end s lx)
           else if valid COMMENT \<and> \<not> valid STRING \<and> lookahead lx = DQUOTE
                   \<and> \<not> ignore_comments s then
             Inr (True, s, (scan_comment lx)\<lparr> result_symbol := COMMENT \<rparr>)
           else if valid STRING then
             (case lex_string lx of
                Inl e \<Rightarrow> Inl e
              | Inr (b, lx') \<Rightarrow> Inr (b, s, lx'))
           else Inr (scan_keyword ct kws s lx valid))"

subsection \<open>Notions used in the statements\<close>

text \<open>
  The size of the buffer the host passes to \<^verbatim>\<open>serialize\<close>
  (\<^verbatim>\<open>TREE_SITTER_SERIALIZATION_BUFFER_SIZE\<close> of \<^verbatim>\<open>tree_sitter/parser.h\<close>).
\<close>

definition TREE_SITTER_SERIALIZATION_BUFFER_SIZE :: nat where
  "TREE_SITTER_SERIALIZATION_BUFFER_SIZE = 1024"

text \<open>The heredoc marker as a bounded string: the first \<^verbatim>\<open>marker_len\<close> bytes of the array.\<close>

definition marker_text :: "Scanner \<Rightarrow> cchar list" where
  "marker_text s = take (unat (marker_len s)) (heredoc_marker s)"

text \<open>
  What every state the scanner gets into satisfies: the array has its 32 bytes, the
  recorded length is below 32, and inside the marker no byte follows a nul byte other
  than nul bytes (the marker went through \<^verbatim>\<open>strncpy\<close>).
\<close>

definition scanner_inv :: "Scanner \<Rightarrow> bool" where
  "scanner_inv s \<longleftrightarrow>
     length (heredoc_marker s) = HEREDOC_MARKER_LEN \<and>
     unat (marker_len s) < HEREDOC_MARKER_LEN \<and>
     list_all (\<lambda>c. c = 0) (dropWhile (\<lambda>c. c \<noteq> 0) (marker_text s))"

text \<open>A state with an open separator \<^verbatim>\<open>/\<close>, comments suppressed and the marker \<^verbatim>\<open>EOF\<close>.\<close>

definition state_EOF :: Scanner where
  "state_EOF = \<lparr> separator = 47, ignore_comments = True, marker_len = 3,
       heredoc_marker = cstring ''EOF'' @ replicate 29 0 \<rparr>"


text \<open>A lexer at the start of the given input, and the code points of a string.\<close>

definition lexer_on :: "int list \<Rightarrow> TSLexer" where
  "lexer_on cs = \<lparr> input = cs, position = 0, token_start = 0, token_end = None, result_symbol = NO \<rparr>"

definition chars :: "string \<Rightarrow> int list" where
  "chars s = map of_char s"

text \<open>A table entry in the style of the table: \<^verbatim>\<open>fu[nction]\<close>.\<close>

definition kw_function :: keyword where
  "kw_function = \<lparr> mandat = cstring ''fu'', opt = cstring ''nction'', ignore_comments_after = False \<rparr>"

text \<open>
  The characters between the opening \<^verbatim>\<open>"\<close> and the end of the line, as the double-quote
  lexer walks them: plain characters, and a backslash together with the character after it.
\<close>

fun string_body :: "int list \<Rightarrow> bool" where
  "string_body [] = True"
| "string_body [c] = (c \<noteq> BACKSLASH \<and> c \<noteq> DQUOTE \<and> c \<noteq> NEWLINE \<and> c \<noteq> NUL)"
| "string_body (c # d # cs) =
     (if c = BACKSLASH then string_body cs
      else c \<noteq> DQUOTE \<and> c \<noteq> NEWLINE \<and> c \<noteq> NUL \<and> string_body (d # cs))"

text \<open>The kinds that the scan function emits only after the heredoc rules.\<close>

definition late_kind :: "TokenType \<Rightarrow> bool" where
  "late_kind t = (case t of COMMENT \<Rightarrow> True | STRING \<Rightarrow> True | KEYWORD n \<Rightarrow> True | _ \<Rightarrow> False)"


text \<open>The scope letters of the keyword rule followed by a colon.\<close>

definition scope_colon :: "int \<Rightarrow> int list \<Rightarrow> bool" where
  "scope_colon c cs \<longleftrightarrow>
     c \<in> {chr CHR ''g'', chr CHR ''b'', chr CHR ''l'', chr CHR ''t'', chr CHR ''w'',
           chr CHR ''s'', chr CHR ''v''}
     \<and> take 1 cs = [chr CHR '':'']"

text \<open>Sets of accepted kinds and a state for concrete runs.\<close>

definition valid_no_inv :: valid_symbols where
  "valid_no_inv t \<longleftrightarrow> t \<in> {LINE_CONTINUATION, NO, INV, SCOPE, SCOPE_DICT, STRING, COMMENT,
      HEREDOC_END, KEYWORD 0, KEYWORD 1}"

definition valid_kw :: valid_symbols where
  "valid_kw t \<longleftrightarrow> t = LINE_CONTINUATION \<or> t = KEYWORD 0 \<or> t = KEYWORD 1"

definition valid_let :: valid_symbols where
  "valid_let t \<longleftrightarrow> t = LINE_CONTINUATION \<or> t = LET_HEREDOC_MARKER"



text \<open>
  Character classes that also know the symbols beyond ASCII, as a UTF-8 locale does: here
  the one code point U+226E (not less-than) is added to the punctuation of the "C" locale.
\<close>

definition utf8_locale :: wctype where
  "utf8_locale = c_locale\<lparr> iswpunct := (\<lambda>c. iswpunct c_locale c \<or> c = 8814) \<rparr>"

definition valid_sep_first :: valid_symbols where
  "valid_sep_first t \<longleftrightarrow> t = LINE_CONTINUATION \<or> t = SEP_FIRST"

definition valid_no_sep :: valid_symbols where
  "valid_no_sep t \<longleftrightarrow> t = LINE_CONTINUATION \<or> t = NO \<or> t = SEP"

text \<open>
  The state after U+226E opened a separator: the stored \<^verbatim>\<open>char\<close> is its low byte, \<^verbatim>\<open>n\<close>.
\<close>

definition state_sep_n :: Scanner where
  "state_sep_n = \<lparr> separator = 110, ignore_comments = True, marker_len = 0,
       heredoc_marker = replicate 32 0 \<rparr>"


text \<open>
  The states the scanner can be in: the created one, the state after a scan call from such
  a state (on any input and any set of accepted kinds), and the state after the host
  restores, into the payload, the bytes it got from \<^verbatim>\<open>serialize\<close> for such a state.
\<close>

inductive reachable :: "wctype \<Rightarrow> keyword list \<Rightarrow> Scanner \<Rightarrow> bool" for ct kws where
  created: "reachable ct kws tree_sitter_vim_external_scanner_create"
| scanned: "reachable ct kws s
     \<Longrightarrow> tree_sitter_vim_external_scanner_scan ct kws s lexer valid = Inr (b, s', lexer')
     \<Longrightarrow> reachable ct kws s'"
| restored: "reachable ct kws p \<Longrightarrow> reachable ct kws s
     \<Longrightarrow> length buffer = TREE_SITTER_SERIALIZATION_BUFFER_SIZE
     \<Longrightarrow> tree_sitter_vim_external_scanner_deserialize p (serialized s buffer) = Inr s'
     \<Longrightarrow> reachable ct kws s'"

text \<open>The state after the capture of the marker \<^verbatim>\<open>EOF\<close> from the created state.\<close>

definition state_let :: Scanner where
  "state_let = \<lparr> separator = 0, ignore_comments = False, marker_len = 3,
       heredoc_marker = cstring ''EOF'' @ replicate 29 0 \<rparr>"

section \<open>Properties of the state codec\<close>

lemma all_nul_replicate: "list_all (\<lambda>c. c = (0::cchar)) ys \<Longrightarrow> ys = replicate (length ys) 0"
  by (induction ys) auto

lemma length_takeWhile_dropWhile:
  "length (takeWhile P xs) + length (dropWhile P xs) = length xs"
  by (induction xs) auto

lemma take_add_append: "length xs = k \<Longrightarrow> take (n + k) (xs @ ys) = xs @ take n ys"
  by simp

lemma strncpy_bytes_closed:
  assumes "list_all (\<lambda>c. c = (0::cchar)) (dropWhile (\<lambda>c. c \<noteq> 0) xs)"
  shows "takeWhile (\<lambda>c. c \<noteq> 0) xs @ replicate (length xs - length (takeWhile (\<lambda>c. c \<noteq> 0) xs)) 0 = xs"
proof -
  have "dropWhile (\<lambda>c. c \<noteq> 0) xs = replicate (length (dropWhile (\<lambda>c. c \<noteq> 0) xs)) 0"
    using assms by (rule all_nul_replicate)
  moreover have "length (dropWhile (\<lambda>c. c \<noteq> 0) xs) = length xs - length (takeWhile (\<lambda>c. c \<noteq> 0) xs)"
    using length_takeWhile_dropWhile [of "\<lambda>c. c \<noteq> 0" xs] by simp
  ultimately show ?thesis
    by (metis takeWhile_dropWhile_id)
qed

lemma strncpy_closed:
  assumes "list_all (\<lambda>c. c = (0::cchar)) (dropWhile (\<lambda>c. c \<noteq> 0) (take n src))" and "n \<le> length src"
  shows "strncpy dst src n = take n src @ drop n dst"
  using strncpy_bytes_closed [OF assms(1)] assms(2) by (simp add: strncpy_def Let_def)

lemma take3_updates:
  "3 \<le> length buffer \<Longrightarrow> take 3 (buffer[Suc 0 := a, 0 := b, 2 := c]) = [b, a, c]"
  by (cases buffer; cases "tl buffer"; cases "tl (tl buffer)") (auto simp: numeral_3_eq_3)

lemma length_strncpy_bytes: "length (takeWhile P (take n src)) \<le> n"
  by (rule order_trans [OF length_takeWhile_le]) simp

lemma serialized_eq:
  assumes "scanner_inv s" and "3 + unat (marker_len s) \<le> length buffer"
  shows "serialized s buffer =
           [of_bool (ignore_comments s), separator s, marker_len s] @ marker_text s"
proof -
  let ?n = "unat (marker_len s)"
  let ?b3 = "buffer[Suc 0 := separator s, 0 := of_bool (ignore_comments s), 2 := marker_len s]"
  have len: "?n \<le> length (heredoc_marker s)"
    using assms(1) by (simp add: scanner_inv_def)
  have cl: "strncpy (drop 3 ?b3) (heredoc_marker s) ?n = take ?n (heredoc_marker s) @ drop ?n (drop 3 ?b3)"
    using assms(1) len by (intro strncpy_closed) (simp_all add: scanner_inv_def marker_text_def)
  have t3: "take 3 ?b3 = [of_bool (ignore_comments s), separator s, marker_len s]"
    using assms(2) by (intro take3_updates) simp
  have "serialized s buffer = take (?n + 3) (take 3 ?b3 @ strncpy (drop 3 ?b3) (heredoc_marker s) ?n)"
    by (simp add: serialized_def tree_sitter_vim_external_scanner_serialize_def Let_def
        SC_PAIRED_SEP_def SC_IGNORE_COMMENTS_def SC_MARK_LEN_def SC_MARK_def)
  also have "\<dots> = take 3 ?b3 @ take ?n (strncpy (drop 3 ?b3) (heredoc_marker s) ?n)"
    by (rule take_add_append) (simp add: t3)
  also have "take ?n (strncpy (drop 3 ?b3) (heredoc_marker s) ?n) = take ?n (heredoc_marker s)"
    using len by (simp only: cl) simp
  finally show ?thesis by (simp add: t3 marker_text_def)
qed

lemma deserialize_serialized:
  assumes "scanner_inv s" and "length (heredoc_marker p) = HEREDOC_MARKER_LEN"
    and "3 + unat (marker_len s) \<le> length buffer"
  shows "tree_sitter_vim_external_scanner_deserialize p (serialized s buffer) =
           Inr (s\<lparr> heredoc_marker := marker_text s @ drop (unat (marker_len s)) (heredoc_marker p) \<rparr>)"
proof -
  let ?n = "unat (marker_len s)"
  have ser: "serialized s buffer = [of_bool (ignore_comments s), separator s, marker_len s] @ marker_text s"
    using assms(1,3) by (rule serialized_eq)
  have lm: "length (marker_text s) = ?n"
    using assms(1) by (simp add: scanner_inv_def marker_text_def)
  have n32: "?n < HEREDOC_MARKER_LEN" using assms(1) by (simp add: scanner_inv_def)
  have cl: "strncpy (heredoc_marker p) (marker_text s) ?n = marker_text s @ drop ?n (heredoc_marker p)"
    using strncpy_closed [of ?n "marker_text s" "heredoc_marker p"] assms(1) lm
    by (simp add: scanner_inv_def)
  show ?thesis
  proof (cases "?n = 0")
    case True
    then have "marker_text s = []" using lm by simp
    with True n32 show ?thesis
      by (simp add: ser tree_sitter_vim_external_scanner_deserialize_def Let_def
          SC_PAIRED_SEP_def SC_IGNORE_COMMENTS_def SC_MARK_LEN_def SC_MARK_def)
  next
    case False
    with n32 lm cl show ?thesis
      by (simp add: ser tree_sitter_vim_external_scanner_deserialize_def Let_def
          SC_PAIRED_SEP_def SC_IGNORE_COMMENTS_def SC_MARK_LEN_def SC_MARK_def)
  qed
qed

lemma scanner_inv_create: "scanner_inv tree_sitter_vim_external_scanner_create"
  by (simp add: scanner_inv_def marker_text_def tree_sitter_vim_external_scanner_create_def
      HEREDOC_MARKER_LEN_def)

text \<open>
  Claim C2, amended.  For every state with \<open>scanner_inv\<close>, and the host's buffer,
  \<^verbatim>\<open>serialize\<close> returns \<open>3 + marker_len\<close> and the stored bytes are: byte 0 the
  suppress-comments flag as 0/1 (\<^verbatim>\<open>SC_IGNORE_COMMENTS\<close>), byte 1 the separator
  (\<^verbatim>\<open>SC_PAIRED_SEP\<close>), byte 2 the marker length, then exactly the marker's bytes.
\<close>

theorem serialize_layout:
  assumes "scanner_inv s" and "length buffer = TREE_SITTER_SERIALIZATION_BUFFER_SIZE"
  shows "fst (tree_sitter_vim_external_scanner_serialize s buffer) = 3 + unat (marker_len s)
       \<and> length (serialized s buffer) = 3 + unat (marker_len s)
       \<and> serialized s buffer ! 0 = of_bool (ignore_comments s)
       \<and> serialized s buffer ! 1 = separator s
       \<and> serialized s buffer ! 2 = marker_len s
       \<and> drop 3 (serialized s buffer) = marker_text s
       \<and> length (marker_text s) = unat (marker_len s)"
proof -
  have n: "unat (marker_len s) < 32" and l: "length (heredoc_marker s) = 32"
    using assms(1) by (simp_all add: scanner_inv_def HEREDOC_MARKER_LEN_def)
  then have "3 + unat (marker_len s) \<le> length buffer"
    using assms(2) by (simp add: TREE_SITTER_SERIALIZATION_BUFFER_SIZE_def)
  with assms(1) have eq: "serialized s buffer =
      [of_bool (ignore_comments s), separator s, marker_len s] @ marker_text s"
    by (rule serialized_eq)
  have lm: "length (marker_text s) = unat (marker_len s)"
    using n l by (simp add: marker_text_def)
  have "fst (tree_sitter_vim_external_scanner_serialize s buffer) = 3 + unat (marker_len s)"
    by (simp add: tree_sitter_vim_external_scanner_serialize_def Let_def SC_MARK_def)
  then show ?thesis using lm by (simp add: eq)
qed

lemma scanner_inv_state_EOF: "scanner_inv state_EOF"
  by (simp add: scanner_inv_def marker_text_def state_EOF_def HEREDOC_MARKER_LEN_def cstring_def)

theorem serialize_layout_witness:
  "scanner_inv state_EOF
   \<and> length (replicate 1024 (0::cchar)) = TREE_SITTER_SERIALIZATION_BUFFER_SIZE
   \<and> serialized state_EOF (replicate 1024 0) ! 0 = 1
   \<and> serialized state_EOF (replicate 1024 0) ! 1 = 47
   \<and> serialized state_EOF (replicate 1024 0) ! 2 = 3
   \<and> drop 3 (serialized state_EOF (replicate 1024 0)) = cstring ''EOF''
   \<and> length (serialized state_EOF (replicate 1024 0)) = 6"
proof -
  have b: "length (replicate 1024 (0::cchar)) = TREE_SITTER_SERIALIZATION_BUFFER_SIZE"
    by (simp add: TREE_SITTER_SERIALIZATION_BUFFER_SIZE_def)
  show ?thesis
    using serialize_layout [OF scanner_inv_state_EOF b] scanner_inv_state_EOF b
    by (simp add: state_EOF_def marker_text_def cstring_def)
qed

text \<open>
  Claim C2 as stated puts the separator at byte 0 and the flag at byte 1.  For the state
  with separator \<^verbatim>\<open>/\<close> and the flag clear, byte 0 is 0 and byte 1 is \<^verbatim>\<open>/\<close>.
\<close>

theorem serialize_layout_counterexample:
  "serialized (tree_sitter_vim_external_scanner_create\<lparr> separator := 47 \<rparr>) (replicate 1024 0) ! 0
      \<noteq> separator (tree_sitter_vim_external_scanner_create\<lparr> separator := 47 \<rparr>)
   \<and> serialized (tree_sitter_vim_external_scanner_create\<lparr> separator := 47 \<rparr>) (replicate 1024 0) ! 1
      \<noteq> of_bool (ignore_comments (tree_sitter_vim_external_scanner_create\<lparr> separator := 47 \<rparr>))"
proof -
  let ?s = "tree_sitter_vim_external_scanner_create\<lparr> separator := 47 \<rparr>"
  have "scanner_inv ?s"
    by (simp add: scanner_inv_def marker_text_def tree_sitter_vim_external_scanner_create_def
      HEREDOC_MARKER_LEN_def)
  then have "serialized ?s (replicate 1024 0)
      = [of_bool (ignore_comments ?s), separator ?s, marker_len ?s] @ marker_text ?s"
    by (rule serialized_eq) (simp add: tree_sitter_vim_external_scanner_create_def)
  then show ?thesis
    by (simp add: tree_sitter_vim_external_scanner_create_def)
qed

text \<open>
  Claim C3, amended.  Deserializing a zero-length buffer returns at once: the state is
  left as it was, whatever it was.
\<close>

theorem deserialize_empty: "tree_sitter_vim_external_scanner_deserialize s [] = Inr s"
  by (simp add: tree_sitter_vim_external_scanner_deserialize_def)

text \<open>
  Claim C3 as stated says the state is then the construction value.  A state with an open
  separator, comments suppressed and a marker keeps all three.
\<close>

theorem deserialize_empty_counterexample:
  "tree_sitter_vim_external_scanner_deserialize state_EOF []
     \<noteq> Inr tree_sitter_vim_external_scanner_create"
  by (simp add: tree_sitter_vim_external_scanner_deserialize_def state_EOF_def
      tree_sitter_vim_external_scanner_create_def)

section \<open>Properties of the primitive lexers\<close>

text \<open>
  Claim C9.  The capture of a heredoc marker fails exactly when the first character is
  lowercase, when no character was consumed, or when the cap of 32 characters was hit;
  and whenever it fails the Scanner State it returns is the one it was given, in every
  field.
\<close>

theorem try_lex_heredoc_marker_failure:
  "(\<not> fst (try_lex_heredoc_marker ct s lx)
      \<longleftrightarrow> iswlower ct (lookahead lx)
          \<or> length (fst (try_lex_heredoc_marker_loop lx [])) = 0
          \<or> length (fst (try_lex_heredoc_marker_loop lx [])) = HEREDOC_MARKER_LEN)
   \<and> (\<not> fst (try_lex_heredoc_marker ct s lx)
        \<longrightarrow> fst (snd (try_lex_heredoc_marker ct s lx)) = s)"
  by (cases "try_lex_heredoc_marker_loop lx []")
     (simp add: try_lex_heredoc_marker_def Let_def)

theorem try_lex_heredoc_marker_failure_witness:
  "\<not> fst (try_lex_heredoc_marker c_locale state_EOF (lexer_on (chars ''eof'')))
   \<and> fst (snd (try_lex_heredoc_marker c_locale state_EOF (lexer_on (chars ''eof'')))) = state_EOF
   \<and> \<not> fst (try_lex_heredoc_marker c_locale state_EOF (lexer_on (replicate 32 65)))
   \<and> fst (snd (try_lex_heredoc_marker c_locale state_EOF (lexer_on (replicate 32 65)))) = state_EOF
   \<and> \<not> fst (try_lex_heredoc_marker c_locale state_EOF (lexer_on []))
   \<and> fst (snd (try_lex_heredoc_marker c_locale state_EOF (lexer_on []))) = state_EOF"
proof -
  have a: "iswlower c_locale (lookahead (lexer_on (chars ''eof'')))"
    by code_simp
  have b: "length (fst (try_lex_heredoc_marker_loop (lexer_on (replicate 32 65)) [])) = HEREDOC_MARKER_LEN"
    by code_simp
  have c: "length (fst (try_lex_heredoc_marker_loop (lexer_on []) [])) = 0"
    by code_simp
  show ?thesis
    using try_lex_heredoc_marker_failure [of c_locale state_EOF "lexer_on (chars ''eof'')"]
      try_lex_heredoc_marker_failure [of c_locale state_EOF "lexer_on (replicate 32 65)"]
      try_lex_heredoc_marker_failure [of c_locale state_EOF "lexer_on []"] a b c
    by simp
qed

text \<open>
  Claim C8 at the inputs \<^verbatim>\<open><SI\<close> and \<^verbatim>\<open><\<close> followed by the end of the input, with the
  scope kind accepted: the loop over \<^verbatim>\<open>SID>\<close> stops at the end of the input and the scan
  returns the scope kind.  At \<^verbatim>\<open><SIx\<close>, where a character differs, the same loop returns
  no match.
\<close>

theorem lex_scope_truncated_sid:
  "tree_sitter_vim_external_scanner_scan c_locale [] tree_sitter_vim_external_scanner_create
      (lexer_on (chars ''<SI'')) (\<lambda>t. t = LINE_CONTINUATION \<or> t = SCOPE)
   = Inr (True, tree_sitter_vim_external_scanner_create,
          \<lparr> input = [], position = 3, token_start = 0, token_end = None,
            result_symbol = SCOPE \<rparr>)
   \<and> tree_sitter_vim_external_scanner_scan c_locale [] tree_sitter_vim_external_scanner_create
      (lexer_on (chars ''<'')) (\<lambda>t. t = LINE_CONTINUATION \<or> t = SCOPE)
   = Inr (True, tree_sitter_vim_external_scanner_create,
          \<lparr> input = [], position = 1, token_start = 0, token_end = None,
            result_symbol = SCOPE \<rparr>)
   \<and> tree_sitter_vim_external_scanner_scan c_locale [] tree_sitter_vim_external_scanner_create
      (lexer_on (chars ''<SIx'')) (\<lambda>t. t = LINE_CONTINUATION \<or> t = SCOPE)
   = Inr (False, tree_sitter_vim_external_scanner_create,
          \<lparr> input = chars ''x'', position = 3, token_start = 0, token_end = None,
            result_symbol = NO \<rparr>)"
  by code_simp

lemma skip_space_tabs_indent:
  "list_all IS_SPACE_TABS indent \<Longrightarrow> rest = [] \<or> \<not> IS_SPACE_TABS (hd rest)
     \<Longrightarrow> input lx = indent @ rest
     \<Longrightarrow> skip_space_tabs lx =
           lx\<lparr> input := rest, position := position lx + length indent,
               token_start := (if indent = [] then token_start lx
                               else position lx + length indent) \<rparr>"
proof (induction indent arbitrary: lx)
  case Nil
  then have "\<not> IS_SPACE_TABS (lookahead lx)"
    by (cases rest) (auto simp: lookahead_def IS_SPACE_TABS_def chr_def TAB_def)
  then have "skip_space_tabs lx = lx" by (subst skip_space_tabs.simps) simp
  moreover from Nil have "input lx = rest" by simp
  ultimately show ?case by simp
next
  case (Cons c indent)
  then have sp: "IS_SPACE_TABS (lookahead lx)" by (simp add: lookahead_def)
  let ?lx = "advance lx True"
  have adv: "?lx = lx\<lparr> input := indent @ rest, position := Suc (position lx),
      token_start := Suc (position lx) \<rparr>"
    using Cons.prems(3) by (simp add: advance_def)
  have "skip_space_tabs lx = skip_space_tabs ?lx"
    using sp by (subst skip_space_tabs.simps) simp
  also have "\<dots> = ?lx\<lparr> input := rest, position := position ?lx + length indent,
               token_start := (if indent = [] then token_start ?lx
                               else position ?lx + length indent) \<rparr>"
    using Cons.prems by (intro Cons.IH) (simp_all add: adv)
  finally show ?case by (simp add: adv)
qed

lemma lex_escapable_string_body:
  "string_body body \<Longrightarrow> input lx = body @ rest
     \<Longrightarrow> lex_escapable_string lx =
           lex_escapable_string (lx\<lparr> input := rest, position := position lx + length body \<rparr>)"
proof (induction body arbitrary: lx rule: string_body.induct)
  case 1
  then have "lx\<lparr> input := rest, position := position lx + length ([]::int list) \<rparr> = lx" by simp
  then show ?case by simp
next
  case (2 c)
  then have la: "lookahead lx = c" by (simp add: lookahead_def)
  have adv: "advance lx False = lx\<lparr> input := rest, position := Suc (position lx) \<rparr>"
    using 2 by (simp add: advance_def)
  have "lex_escapable_string lx = lex_escapable_string (advance lx False)"
    using 2 la by (subst lex_escapable_string.simps) simp
  then show ?case by (simp add: adv)
next
  case (3 c d cs)
  have la: "lookahead lx = c" using 3 by (simp add: lookahead_def)
  have adv: "advance lx False = lx\<lparr> input := d # cs @ rest, position := Suc (position lx) \<rparr>"
    using 3 by (simp add: advance_def)
  show ?case
  proof (cases "c = BACKSLASH")
    case True
    have adv2: "advance (advance lx False) False
        = lx\<lparr> input := cs @ rest, position := Suc (Suc (position lx)) \<rparr>"
      by (simp add: adv) (simp add: advance_def)
    have "lex_escapable_string lx = lex_escapable_string (advance (advance lx False) False)"
      using True la by (subst lex_escapable_string.simps) simp
    also have "\<dots> = lex_escapable_string ((advance (advance lx False) False)
        \<lparr> input := rest, position := position (advance (advance lx False) False) + length cs \<rparr>)"
      using True 3 by (intro "3.IH"(1)) (simp_all add: adv2)
    finally show ?thesis by (simp add: adv2)
  next
    case False
    have "lex_escapable_string lx = lex_escapable_string (advance lx False)"
      using False 3 la by (subst lex_escapable_string.simps) simp
    also have "\<dots> = lex_escapable_string ((advance lx False)
        \<lparr> input := rest, position := position (advance lx False) + length (d # cs) \<rparr>)"
      using False 3 by (intro "3.IH"(2)) (simp_all add: adv)
    finally show ?thesis by (simp add: adv)
  qed
qed

text \<open>
  Claim C7, amended.  For a double-quoted string whose opening line ends in a newline and
  whose following line, after its space/tab indentation, does not begin with a backslash,
  the string lexer succeeds with the COMMENT kind; the end it marks last is past the
  newline and past that indentation, at the first character of the following line that is
  no space or tab.
\<close>

theorem lex_string_unterminated_line:
  assumes "input lx = DQUOTE # body @ NEWLINE # indent @ rest"
    and "string_body body"
    and "list_all IS_SPACE_TABS indent"
    and "rest = [] \<or> (hd rest \<noteq> BACKSLASH \<and> \<not> IS_SPACE_TABS (hd rest))"
  shows "lex_string lx =
           Inr (True,
                lx\<lparr> input := rest,
                    position := position lx + length body + length indent + 2,
                    token_start := (if indent = [] then token_start lx
                                    else position lx + length body + length indent + 2),
                    token_end := Some (position lx + length body + length indent + 2),
                    result_symbol := COMMENT \<rparr>)"
proof -
  let ?l1 = "advance lx False"
  have l1: "?l1 = lx\<lparr> input := body @ NEWLINE # indent @ rest, position := Suc (position lx) \<rparr>"
    using assms(1) by (simp add: advance_def)
  have la: "lookahead lx = DQUOTE" using assms(1) by (simp add: lookahead_def)
  have s1: "lex_string lx = Inr (lex_escapable_string ?l1)"
    by (simp add: lex_string_def la is_valid_string_delim_def Let_def DQUOTE_def SQUOTE_def)
  let ?l2 = "?l1\<lparr> input := NEWLINE # indent @ rest, position := position ?l1 + length body \<rparr>"
  have s2: "lex_escapable_string ?l1 = lex_escapable_string ?l2"
    using assms(2) by (rule lex_escapable_string_body) (simp add: l1)
  have l2: "?l2 = lx\<lparr> input := NEWLINE # indent @ rest,
      position := Suc (position lx) + length body \<rparr>"
    by (simp add: l1)
  have la2: "lookahead ?l2 = NEWLINE" by (simp add: lookahead_def)
  define l3 where "l3 = lx\<lparr> input := indent @ rest, position := position lx + length body + 2,
      token_end := Some (position lx + length body + 1) \<rparr>"
  define l4 where "l4 = l3\<lparr> input := rest, position := position l3 + length indent,
               token_start := (if indent = [] then token_start l3
                               else position l3 + length indent) \<rparr>"
  have e3: "advance (mark_end ?l2) False = l3"
    unfolding l3_def by (simp only: l2) (simp add: advance_def mark_end_def)
  have rest': "rest = [] \<or> \<not> IS_SPACE_TABS (hd rest)" using assms(4) by auto
  have e4: "skip_space_tabs l3 = l4"
    unfolding l4_def using assms(3) rest' by (rule skip_space_tabs_indent) (simp add: l3_def)
  have la4: "lookahead l4 \<noteq> BACKSLASH"
    using assms(4) by (auto simp: l4_def lookahead_def BACKSLASH_def split: list.splits)
  have "lex_escapable_string ?l2 =
      (if lookahead (skip_space_tabs (advance (mark_end ?l2) False)) \<noteq> BACKSLASH
       then (True, (mark_end (skip_space_tabs (advance (mark_end ?l2) False)))
                     \<lparr> result_symbol := COMMENT \<rparr>)
       else lex_escapable_string (skip_space_tabs (advance (mark_end ?l2) False)))"
    using la2 by (subst lex_escapable_string.simps) (simp add: NEWLINE_def BACKSLASH_def DQUOTE_def)
  then have r: "lex_escapable_string ?l2 = (True, (mark_end l4)\<lparr> result_symbol := COMMENT \<rparr>)"
    using la4 by (simp only: e3 e4) simp
  have m: "(mark_end l4)\<lparr> result_symbol := COMMENT \<rparr> =
      lx\<lparr> input := rest,
          position := position lx + length body + length indent + 2,
          token_start := (if indent = [] then token_start lx
                          else position lx + length body + length indent + 2),
          token_end := Some (position lx + length body + length indent + 2),
          result_symbol := COMMENT \<rparr>"
    by (simp add: l4_def l3_def mark_end_def)
  show ?thesis
    by (simp only: s1 s2 r m)
qed

theorem lex_string_unterminated_line_witness:
  "input (lexer_on (DQUOTE # chars ''abc'' @ NEWLINE # chars ''  '' @ chars ''next''))
     = DQUOTE # chars ''abc'' @ NEWLINE # chars ''  '' @ chars ''next''
   \<and> string_body (chars ''abc'') \<and> list_all IS_SPACE_TABS (chars ''  '')
   \<and> (chars ''next'' = [] \<or> (hd (chars ''next'') \<noteq> BACKSLASH \<and> \<not> IS_SPACE_TABS (hd (chars ''next''))))
   \<and> lex_string (lexer_on (DQUOTE # chars ''abc'' @ NEWLINE # chars ''  '' @ chars ''next''))
       = Inr (True, \<lparr> input = chars ''next'', position = 7, token_start = 7,
                       token_end = Some 7, result_symbol = COMMENT \<rparr>)"
proof -
  have a: "input (lexer_on (DQUOTE # chars ''abc'' @ NEWLINE # chars ''  '' @ chars ''next''))
     = DQUOTE # chars ''abc'' @ NEWLINE # chars ''  '' @ chars ''next''"
    by (simp add: lexer_on_def)
  have b: "string_body (chars ''abc'')"
    by (simp add: chars_def BACKSLASH_def DQUOTE_def NEWLINE_def NUL_def)
  have c: "list_all IS_SPACE_TABS (chars ''  '')"
    by (simp add: chars_def IS_SPACE_TABS_def chr_def)
  have d: "chars ''next'' = [] \<or> (hd (chars ''next'') \<noteq> BACKSLASH \<and> \<not> IS_SPACE_TABS (hd (chars ''next'')))"
    by (simp add: chars_def IS_SPACE_TABS_def chr_def BACKSLASH_def TAB_def)
  show ?thesis
    using lex_string_unterminated_line [OF a b c d] a b c d
    by (simp add: lexer_on_def chars_def)
qed

text \<open>
  Claim C7 as stated has the token end at the newline, the boundary marked first.  For
  \<^verbatim>\<open>"abc\<close>, newline, \<^verbatim>\<open>next\<close> the newline is the character at position 4 and the marked
  end is 5; with two spaces before \<^verbatim>\<open>next\<close> the marked end is 7.
\<close>

theorem lex_string_unterminated_line_counterexample:
  "lex_string (lexer_on (DQUOTE # chars ''abc'' @ NEWLINE # chars ''next''))
     = Inr (True, \<lparr> input = chars ''next'', position = 5, token_start = 0,
                     token_end = Some 5, result_symbol = COMMENT \<rparr>)
   \<and> lex_string (lexer_on (DQUOTE # chars ''abc'' @ NEWLINE # chars ''  next''))
     = Inr (True, \<lparr> input = chars ''next'', position = 7, token_start = 7,
                     token_end = Some 7, result_symbol = COMMENT \<rparr>)
   \<and> input (lexer_on (DQUOTE # chars ''abc'' @ NEWLINE # chars ''  next'')) ! 4 = NEWLINE"
  by code_simp

section \<open>Properties of the keyword matcher\<close>

lemma cnth_zero_iff: "0 \<notin> set s \<Longrightarrow> cnth s i = 0 \<longleftrightarrow> length s \<le> i"
proof (cases "i < length s")
  case True
  assume "0 \<notin> set s"
  with True have "s ! i \<noteq> 0" using nth_mem [OF True] by metis
  with True show ?thesis by (simp add: cnth_def)
next
  case False
  then show ?thesis by (simp add: cnth_def)
qed

lemma strlen_no_nul: "0 \<notin> set s \<Longrightarrow> strlen s = length s"
  unfolding strlen_def by (induction s) auto

lemma try_lex_keyword_mandat_eq:
  "0 \<notin> set possible \<Longrightarrow> 0 \<notin> set m \<Longrightarrow> i \<le> min (length m) (length possible) \<Longrightarrow>
     try_lex_keyword_mandat possible m i =
       (if drop i (take (min (length m) (length possible)) possible)
             = drop i (take (min (length m) (length possible)) m)
        then Some (min (length m) (length possible)) else None)"
proof (induction possible m i rule: try_lex_keyword_mandat.induct)
  case (1 possible m i)
  let ?k = "min (length m) (length possible)"
  show ?case
  proof (cases "i < ?k")
    case True
    then have c: "cnth m i = m ! i" "cnth possible i = possible ! i"
      by (simp_all add: cnth_def)
    have nz: "cnth m i \<noteq> 0" "cnth possible i \<noteq> 0"
      using True "1.prems" by (simp_all add: cnth_zero_iff)
    have dp: "drop i (take ?k possible) = possible ! i # drop (Suc i) (take ?k possible)"
      using True by (simp add: Cons_nth_drop_Suc [symmetric])
    have dm: "drop i (take ?k m) = m ! i # drop (Suc i) (take ?k m)"
      using True by (simp add: Cons_nth_drop_Suc [symmetric])
    show ?thesis
    proof (cases "possible ! i = m ! i")
      case False
      then show ?thesis using nz c dp dm by (subst try_lex_keyword_mandat.simps) simp
    next
      case eq: True
      have "try_lex_keyword_mandat possible m i = try_lex_keyword_mandat possible m (Suc i)"
        using nz c eq by (subst try_lex_keyword_mandat.simps) simp
      also have "\<dots> = (if drop (Suc i) (take ?k possible) = drop (Suc i) (take ?k m)
          then Some ?k else None)"
        using True nz c eq "1.prems" by (intro "1.IH") auto
      finally show ?thesis using dp dm eq by simp
    qed
  next
    case False
    with "1.prems" have ik: "i = ?k" by arith
    then have "\<not> (cnth m i \<noteq> 0 \<and> cnth possible i \<noteq> 0)"
      using "1.prems" by (simp add: cnth_zero_iff min_def)
    then have "try_lex_keyword_mandat possible m i = Some i"
      by (subst try_lex_keyword_mandat.simps) auto
    then show ?thesis by (simp only: ik [symmetric]) simp
  qed
qed

lemma try_lex_keyword_opt_eq:
  "0 \<notin> set possible \<Longrightarrow> 0 \<notin> set ops \<Longrightarrow> ml \<le> length possible
     \<Longrightarrow> i \<le> min (length ops) (length possible - ml) \<Longrightarrow>
     try_lex_keyword_opt possible ops ml i =
       (drop i (take (min (length ops) (length possible - ml)) (drop ml possible))
          = drop i (take (min (length ops) (length possible - ml)) ops))"
proof (induction possible ops ml i rule: try_lex_keyword_opt.induct)
  case (1 possible ops ml i)
  let ?k = "min (length ops) (length possible - ml)"
  let ?p = "drop ml possible"
  show ?case
  proof (cases "i < ?k")
    case True
    then have lt: "i < length ops" "ml + i < length possible"
      by auto
    have c: "cnth ops i = ops ! i" "cnth possible (ml + i) = ?p ! i"
      using lt "1.prems" by (simp_all add: cnth_def)
    have nz: "cnth ops i \<noteq> 0" "cnth possible (ml + i) \<noteq> 0"
      using lt "1.prems" by (simp_all add: cnth_zero_iff)
    have dp: "drop i (take ?k ?p) = ?p ! i # drop (Suc i) (take ?k ?p)"
      using True by (subst Cons_nth_drop_Suc [symmetric]) simp_all
    have dm: "drop i (take ?k ops) = ops ! i # drop (Suc i) (take ?k ops)"
      using True by (subst Cons_nth_drop_Suc [symmetric]) simp_all
    show ?thesis
    proof (cases "?p ! i = ops ! i")
      case False
      then show ?thesis using nz c dp dm by (subst try_lex_keyword_opt.simps) simp
    next
      case eq: True
      have "try_lex_keyword_opt possible ops ml i = try_lex_keyword_opt possible ops ml (Suc i)"
        using nz c eq by (subst try_lex_keyword_opt.simps) simp
      also have "\<dots> = (drop (Suc i) (take ?k ?p) = drop (Suc i) (take ?k ops))"
        using True nz c eq "1.prems" by (intro "1.IH") auto
      finally show ?thesis using dp dm eq by simp
    qed
  next
    case False
    with "1.prems" have ik: "i = ?k" by arith
    then have "\<not> (cnth ops i \<noteq> 0 \<and> cnth possible (ml + i) \<noteq> 0)"
      using "1.prems" by (simp add: cnth_zero_iff min_def)
    then have "try_lex_keyword_opt possible ops ml i = True"
      by (subst try_lex_keyword_opt.simps) auto
    then show ?thesis by (simp only: ik [symmetric]) simp
  qed
qed

lemma split_at_length:
  "(take (length m) p = m \<and> drop (length m) p = t) \<longleftrightarrow> p = m @ t"
proof
  assume a: "take (length m) p = m \<and> drop (length m) p = t"
  have "p = take (length m) p @ drop (length m) p" by simp
  with a show "p = m @ t" by simp
next
  assume "p = m @ t"
  then show "take (length m) p = m \<and> drop (length m) p = t" by simp
qed

text \<open>
  Claim C6.  For a table entry and a captured run (C strings: no nul inside), the matcher
  accepts the run exactly when the run is the mandatory part followed by a leading part,
  possibly empty, of the optional part, and nothing more.
\<close>

theorem try_lex_keyword_iff:
  assumes "0 \<notin> set possible" and "0 \<notin> set (mandat kw)" and "0 \<notin> set (opt kw)"
  shows "try_lex_keyword possible kw
           \<longleftrightarrow> (\<exists>k \<le> length (opt kw). possible = mandat kw @ take k (opt kw))"
proof -
  let ?m = "mandat kw" and ?o = "opt kw"
  let ?k = "min (length ?m) (length possible)"
  have ml: "try_lex_keyword_mandat possible ?m 0 =
      (if take ?k possible = take ?k ?m then Some ?k else None)"
    using try_lex_keyword_mandat_eq [OF assms(1,2), of 0] by simp
  show ?thesis
  proof (cases "length possible > length ?m + length ?o")
    case True
    then have "\<not> try_lex_keyword possible kw"
      using assms by (simp add: try_lex_keyword_def strlen_no_nul)
    moreover have "\<not> (\<exists>k \<le> length ?o. possible = ?m @ take k ?o)"
      using True by auto
    ultimately show ?thesis by simp
  next
    case le: False
    show ?thesis
    proof (cases "length possible < length ?m")
      case True
      then have k: "?k = length possible" by simp
      have "cnth ?m ?k \<noteq> 0 \<and> cnth possible ?k = 0"
        using True assms by (simp add: cnth_zero_iff)
      then have "\<not> try_lex_keyword possible kw"
        using ml by (simp add: try_lex_keyword_def)
      moreover have "\<not> (\<exists>k \<le> length ?o. possible = ?m @ take k ?o)"
        using True by auto
      ultimately show ?thesis by simp
    next
      case False
      then have k: "?k = length ?m" by simp
      have c: "cnth ?m ?k = 0"
        using False assms by (simp add: cnth_zero_iff)
      let ?k' = "min (length ?o) (length possible - length ?m)"
      have k': "?k' = length possible - length ?m" using le by simp
      have ol: "try_lex_keyword_opt possible ?o (length ?m) 0
          = (take ?k' (drop (length ?m) possible) = take ?k' ?o)"
        using try_lex_keyword_opt_eq [OF assms(1,3), of "length ?m" 0] False by simp
      have sl: "\<not> strlen possible > strlen ?m + strlen ?o"
        using le assms by (simp add: strlen_no_nul)
      have tk: "take ?k possible = take ?k ?m \<longleftrightarrow> take (length ?m) possible = ?m"
        by (simp only: k) simp
      have dk: "take ?k' (drop (length ?m) possible) = drop (length ?m) possible"
        by (simp only: k') simp
      have "try_lex_keyword possible kw
          \<longleftrightarrow> (case try_lex_keyword_mandat possible ?m 0 of None \<Rightarrow> False
                | Some i \<Rightarrow> if cnth ?m i \<noteq> 0 \<and> cnth possible i = 0 then False
                           else try_lex_keyword_opt possible ?o i 0)"
        using sl by (simp only: try_lex_keyword_def if_False)
      also have "\<dots> \<longleftrightarrow> take ?k possible = take ?k ?m \<and> try_lex_keyword_opt possible ?o ?k 0"
        using c by (simp only: ml) simp
      also have "\<dots> \<longleftrightarrow> take (length ?m) possible = ?m \<and> drop (length ?m) possible = take ?k' ?o"
        using ol dk by (simp add: k)
      also have "\<dots> \<longleftrightarrow> possible = ?m @ take ?k' ?o"
        by (rule split_at_length)
      also have "\<dots> \<longleftrightarrow> (\<exists>k \<le> length ?o. possible = ?m @ take k ?o)"
      proof
        assume "possible = ?m @ take ?k' ?o"
        then show "\<exists>k \<le> length ?o. possible = ?m @ take k ?o"
          by (intro exI [of _ ?k']) simp
      next
        assume "\<exists>k \<le> length ?o. possible = ?m @ take k ?o"
        then obtain j where j: "j \<le> length ?o" "possible = ?m @ take j ?o" by blast
        then have "length possible - length ?m = j" by simp
        with j k' show "possible = ?m @ take ?k' ?o" by simp
      qed
      finally show ?thesis .
    qed
  qed
qed

theorem try_lex_keyword_iff_witness:
  "0 \<notin> set (cstring ''func'') \<and> 0 \<notin> set (cstring ''f'') \<and> 0 \<notin> set (cstring ''funk'')
   \<and> 0 \<notin> set (mandat kw_function) \<and> 0 \<notin> set (opt kw_function)
   \<and> try_lex_keyword (cstring ''func'') kw_function
   \<and> \<not> try_lex_keyword (cstring ''f'') kw_function
   \<and> \<not> try_lex_keyword (cstring ''funk'') kw_function"
proof -
  have h: "0 \<notin> set (cstring ''func'')" "0 \<notin> set (mandat kw_function)" "0 \<notin> set (opt kw_function)"
    and hf: "0 \<notin> set (cstring ''f'')" and hk: "0 \<notin> set (cstring ''funk'')"
    by (simp_all add: cstring_def kw_function_def)
  have "cstring ''func'' = mandat kw_function @ take 2 (opt kw_function)"
    by (simp add: cstring_def kw_function_def)
  then have a: "\<exists>k \<le> length (opt kw_function). cstring ''func'' = mandat kw_function @ take k (opt kw_function)"
    by (intro exI [of _ 2]) (simp add: cstring_def kw_function_def)
  have b: "\<not> (\<exists>k \<le> length (opt kw_function). cstring ''f'' = mandat kw_function @ take k (opt kw_function))"
    by (simp add: cstring_def kw_function_def)
  have c: "\<not> (\<exists>k \<le> length (opt kw_function). cstring ''funk'' = mandat kw_function @ take k (opt kw_function))"
  proof
    assume "\<exists>k \<le> length (opt kw_function). cstring ''funk'' = mandat kw_function @ take k (opt kw_function)"
    then obtain k where k: "cstring ''funk'' = mandat kw_function @ take k (opt kw_function)" by blast
    then have "length (cstring ''funk'') = length (mandat kw_function @ take k (opt kw_function))"
      by simp
    then have "k = 2" by (simp add: cstring_def kw_function_def)
    with k show False by (simp add: cstring_def kw_function_def)
  qed
  show ?thesis
    using try_lex_keyword_iff [OF h] try_lex_keyword_iff [OF hf h(2,3)]
      try_lex_keyword_iff [OF hk h(2,3)] h hf hk a b c
    by simp
qed

section \<open>Properties of the scan function\<close>

lemma check_prefix_no:
  assumes "lookahead lx = chr CHR ''n''" and "take 2 (input lx) \<noteq> chars ''no''"
  shows "check_prefix lx (cstring ''no'') 2 NO = (False, advance lx False)"
proof -
  obtain rest where i: "input lx = 110 # rest"
    using assms(1) by (cases "input lx") (simp_all add: lookahead_def chr_def)
  with assms(2) have "lookahead (advance lx False) \<noteq> 111"
    by (cases rest) (simp_all add: lookahead_def advance_def chars_def)
  then show ?thesis
    using assms(1) by (simp add: check_prefix_def cstring_def chr_def)
qed

lemma check_prefix_inv:
  assumes "lookahead lx = chr CHR ''i''" and "take 3 (input lx) \<noteq> chars ''inv''"
  shows "check_prefix lx (cstring ''inv'') 3 INV =
           (False, if lookahead (advance lx False) = chr CHR ''n''
                   then advance (advance lx False) False else advance lx False)"
proof -
  obtain rest where i: "input lx = 105 # rest"
    using assms(1) by (cases "input lx") (simp_all add: lookahead_def chr_def)
  show ?thesis
  proof (cases "lookahead (advance lx False) = 110")
    case False
    then show ?thesis
      using assms(1) by (simp add: check_prefix_def cstring_def chr_def)
  next
    case True
    then obtain rest' where r: "rest = 110 # rest'"
      using i by (cases rest) (simp_all add: lookahead_def advance_def)
    with i assms(2) have "lookahead (advance (advance lx False) False) \<noteq> 118"
      by (cases rest') (simp_all add: lookahead_def advance_def chars_def)
    then show ?thesis
      using assms(1) True by (simp add: check_prefix_def cstring_def chr_def)
  qed
qed

text \<open>
  Claim C10, amended.  When neither separator rule takes the character (the opening kind is
  not accepted or the lookahead is no punctuation, and the closing kind is not accepted or
  the lookahead is not the open separator), the kind NO is accepted, the lookahead is \<^verbatim>\<open>n\<close>
  and the input does not go on with \<^verbatim>\<open>no\<close>, the scan returns no match with the state
  untouched and the lexer advanced over the \<^verbatim>\<open>n\<close> alone: nothing else was consumed, marked
  or set, so no later rule ran.  Likewise for INV and \<^verbatim>\<open>inv\<close>, where the lexer stops after
  the \<^verbatim>\<open>i\<close>, or after \<^verbatim>\<open>in\<close>.
\<close>

theorem scan_negation_prefix_no_match:
  assumes "valid LINE_CONTINUATION"
    and "lx = skip_space_tabs lexer"
    and "\<not> (valid SEP_FIRST \<and> iswpunct ct (lookahead lx))"
    and "\<not> (valid SEP \<and> sint (separator s) = lookahead lx)"
  shows "(valid NO \<and> lookahead lx = chr CHR ''n'' \<and> take 2 (input lx) \<noteq> chars ''no''
            \<longrightarrow> tree_sitter_vim_external_scanner_scan ct kws s lexer valid
                  = Inr (False, s, advance lx False))
       \<and> (valid INV \<and> lookahead lx = chr CHR ''i'' \<and> take 3 (input lx) \<noteq> chars ''inv''
            \<longrightarrow> tree_sitter_vim_external_scanner_scan ct kws s lexer valid
                  = Inr (False, s,
                         if lookahead (advance lx False) = chr CHR ''n''
                         then advance (advance lx False) False else advance lx False))"
proof (intro conjI impI)
  assume a: "valid NO \<and> lookahead lx = chr CHR ''n'' \<and> take 2 (input lx) \<noteq> chars ''no''"
  then have cp: "check_prefix lx (cstring ''no'') 2 NO = (False, advance lx False)"
    by (intro check_prefix_no) simp_all
  have nz: "lookahead lx \<noteq> 0" "lookahead lx \<noteq> chr CHR ''!''"
    using a by (simp_all add: chr_def)
  show "tree_sitter_vim_external_scanner_scan ct kws s lexer valid = Inr (False, s, advance lx False)"
    unfolding tree_sitter_vim_external_scanner_scan_def Let_def assms(2) [symmetric]
    using assms(1,3,4) a nz by (simp add: cp)
next
  assume a: "valid INV \<and> lookahead lx = chr CHR ''i'' \<and> take 3 (input lx) \<noteq> chars ''inv''"
  then have cp: "check_prefix lx (cstring ''inv'') 3 INV =
           (False, if lookahead (advance lx False) = chr CHR ''n''
                   then advance (advance lx False) False else advance lx False)"
    by (intro check_prefix_inv) simp_all
  have nz: "lookahead lx \<noteq> 0" "lookahead lx \<noteq> chr CHR ''!''" "lookahead lx \<noteq> chr CHR ''n''"
    using a by (simp_all add: chr_def)
  show "tree_sitter_vim_external_scanner_scan ct kws s lexer valid
                  = Inr (False, s,
                         if lookahead (advance lx False) = chr CHR ''n''
                         then advance (advance lx False) False else advance lx False)"
    unfolding tree_sitter_vim_external_scanner_scan_def Let_def assms(2) [symmetric]
    using assms(1,3,4) a nz by (simp add: cp)
qed

theorem scan_negation_prefix_no_match_witness:
  "valid_no_inv LINE_CONTINUATION
   \<and> lexer_on (chars ''next'') = skip_space_tabs (lexer_on (chars ''next''))
   \<and> \<not> (valid_no_inv SEP_FIRST \<and> iswpunct c_locale (lookahead (lexer_on (chars ''next''))))
   \<and> \<not> (valid_no_inv SEP \<and> sint (separator state_EOF) = lookahead (lexer_on (chars ''next'')))
   \<and> valid_no_inv NO \<and> lookahead (lexer_on (chars ''next'')) = chr CHR ''n''
   \<and> take 2 (input (lexer_on (chars ''next''))) \<noteq> chars ''no''
   \<and> tree_sitter_vim_external_scanner_scan c_locale [kw_function] state_EOF
        (lexer_on (chars ''next'')) valid_no_inv
      = Inr (False, state_EOF, advance (lexer_on (chars ''next'')) False)
   \<and> lexer_on (chars ''in x'') = skip_space_tabs (lexer_on (chars ''in x''))
   \<and> \<not> (valid_no_inv SEP_FIRST \<and> iswpunct c_locale (lookahead (lexer_on (chars ''in x''))))
   \<and> \<not> (valid_no_inv SEP \<and> sint (separator state_EOF) = lookahead (lexer_on (chars ''in x'')))
   \<and> valid_no_inv INV \<and> lookahead (lexer_on (chars ''in x'')) = chr CHR ''i''
   \<and> take 3 (input (lexer_on (chars ''in x''))) \<noteq> chars ''inv''
   \<and> tree_sitter_vim_external_scanner_scan c_locale [kw_function] state_EOF
        (lexer_on (chars ''in x'')) valid_no_inv
      = Inr (False, state_EOF, advance (advance (lexer_on (chars ''in x'')) False) False)"
proof -
  have h1: "valid_no_inv LINE_CONTINUATION" by (simp add: valid_no_inv_def)
  have h2: "lexer_on (chars ''next'') = skip_space_tabs (lexer_on (chars ''next''))" by code_simp
  have h3: "\<not> (valid_no_inv SEP_FIRST \<and> iswpunct c_locale (lookahead (lexer_on (chars ''next''))))"
    by (simp add: valid_no_inv_def)
  have h4: "\<not> (valid_no_inv SEP \<and> sint (separator state_EOF) = lookahead (lexer_on (chars ''next'')))"
    by (simp add: valid_no_inv_def)
  have h5: "valid_no_inv NO \<and> lookahead (lexer_on (chars ''next'')) = chr CHR ''n''
      \<and> take 2 (input (lexer_on (chars ''next''))) \<noteq> chars ''no''"
    by (simp add: valid_no_inv_def lexer_on_def chars_def lookahead_def chr_def)
  have g2: "lexer_on (chars ''in x'') = skip_space_tabs (lexer_on (chars ''in x''))" by code_simp
  have g3: "\<not> (valid_no_inv SEP_FIRST \<and> iswpunct c_locale (lookahead (lexer_on (chars ''in x''))))"
    by (simp add: valid_no_inv_def)
  have g4: "\<not> (valid_no_inv SEP \<and> sint (separator state_EOF) = lookahead (lexer_on (chars ''in x'')))"
    by (simp add: valid_no_inv_def)
  have g5: "valid_no_inv INV \<and> lookahead (lexer_on (chars ''in x'')) = chr CHR ''i''
      \<and> take 3 (input (lexer_on (chars ''in x''))) \<noteq> chars ''inv''"
    by (simp add: valid_no_inv_def lexer_on_def chars_def lookahead_def chr_def)
  have g6: "lookahead (advance (lexer_on (chars ''in x'')) False) = chr CHR ''n''" by code_simp
  show ?thesis
    using scan_negation_prefix_no_match [OF h1 h2 h3 h4, where kws = "[kw_function]"]
      scan_negation_prefix_no_match [OF h1 g2 g3 g4, where kws = "[kw_function]"]
      h1 h2 h3 h4 h5 g2 g3 g4 g5 g6
    by simp
qed

text \<open>
  Claim C10 as stated has no condition on the separator rules, which the scan function
  tries first.  U+226E scanned with the separator-opening kind accepted stores the byte
  \<^verbatim>\<open>n\<close> as the separator; from that state \<^verbatim>\<open>next\<close>, scanned with NO and the separator-closing
  kind accepted, gives the separator-closing kind, not a failure.
\<close>

theorem scan_negation_prefix_no_match_counterexample:
  "tree_sitter_vim_external_scanner_scan utf8_locale [] tree_sitter_vim_external_scanner_create
       (lexer_on [8814]) valid_sep_first
     = Inr (True, state_sep_n,
            \<lparr> input = [], position = 1, token_start = 0, token_end = None,
              result_symbol = SEP_FIRST \<rparr>)
   \<and> valid_no_sep NO
   \<and> lookahead (skip_space_tabs (lexer_on (chars ''next''))) = chr CHR ''n''
   \<and> take 2 (input (skip_space_tabs (lexer_on (chars ''next'')))) \<noteq> chars ''no''
   \<and> tree_sitter_vim_external_scanner_scan utf8_locale [] state_sep_n
       (lexer_on (chars ''next'')) valid_no_sep
     = Inr (True, state_sep_n\<lparr> ignore_comments := False \<rparr>,
            \<lparr> input = chars ''ext'', position = 1, token_start = 0, token_end = None,
              result_symbol = SEP \<rparr>)"
  by code_simp

lemma scan_keyword_run_short:
  "list_all (iswalpha ct) letters \<Longrightarrow> input lx = letters @ rest
     \<Longrightarrow> length kw + length letters < KEYWORD_SIZE
     \<Longrightarrow> \<not> iswalpha ct (lookahead (lx\<lparr> input := rest \<rparr>))
     \<Longrightarrow> scan_keyword_run ct lx kw =
           (kw @ map word_of_int letters,
            lx\<lparr> input := rest, position := position lx + length letters \<rparr>)"
proof (induction letters arbitrary: lx kw)
  case Nil
  then have "\<not> iswalpha ct (lookahead lx)" by (simp add: lookahead_def)
  then have "scan_keyword_run ct lx kw = (kw, lx)"
    by (subst scan_keyword_run.simps) simp
  moreover have "lx\<lparr> input := rest, position := position lx + length ([]::int list) \<rparr> = lx"
    using Nil by simp
  ultimately show ?case by simp
next
  case (Cons c letters)
  have la: "lookahead lx = c" using Cons.prems(2) by (simp add: lookahead_def)
  have adv: "advance lx False = lx\<lparr> input := letters @ rest, position := Suc (position lx) \<rparr>"
    using Cons.prems(2) by (simp add: advance_def)
  have "scan_keyword_run ct lx kw = scan_keyword_run ct (advance lx False) (kw @ [word_of_int c])"
    using Cons.prems la by (subst scan_keyword_run.simps) simp
  also have "\<dots> = ((kw @ [word_of_int c]) @ map word_of_int letters,
      (advance lx False)\<lparr> input := rest,
         position := position (advance lx False) + length letters \<rparr>)"
    using Cons.prems by (intro Cons.IH) (simp_all add: adv lookahead_def)
  finally show ?case by (simp add: adv)
qed

lemma scan_keyword_run_full:
  "list_all (iswalpha ct) letters \<Longrightarrow> input lx = letters @ rest
     \<Longrightarrow> length kw \<le> KEYWORD_SIZE
     \<Longrightarrow> KEYWORD_SIZE \<le> length kw + length letters
     \<Longrightarrow> length (fst (scan_keyword_run ct lx kw)) = KEYWORD_SIZE"
proof (induction letters arbitrary: lx kw)
  case Nil
  then have "\<not> length kw < KEYWORD_SIZE" by simp
  then have "scan_keyword_run ct lx kw = (kw, lx)"
    by (subst scan_keyword_run.simps) simp
  then show ?case using Nil by simp
next
  case (Cons c letters)
  have la: "lookahead lx = c" using Cons.prems(2) by (simp add: lookahead_def)
  have adv: "input (advance lx False) = letters @ rest"
    using Cons.prems(2) by (simp add: advance_def)
  show ?case
  proof (cases "length kw < KEYWORD_SIZE")
    case True
    have "scan_keyword_run ct lx kw = scan_keyword_run ct (advance lx False) (kw @ [word_of_int c])"
      using Cons.prems la True by (subst scan_keyword_run.simps) simp
    moreover have "length (fst (scan_keyword_run ct (advance lx False) (kw @ [word_of_int c]))) = KEYWORD_SIZE"
      using Cons.prems True adv by (intro Cons.IH) simp_all
    ultimately show ?thesis by simp
  next
    case False
    then have "scan_keyword_run ct lx kw = (kw, lx)"
      by (subst scan_keyword_run.simps) simp
    then show ?thesis using False Cons.prems by simp
  qed
qed

text \<open>
  Claim C5, amended.  In the keyword rule, after a lowercase first character that is not a
  scope letter before a colon, a run of up to 29 letters in all is captured whole and matched
  against the table (first accepted entry, else the unknown-command kind if accepted, else
  no match); a run of 30 letters or more is a hard failure, whatever follows it, and leaves
  the state as it was.
\<close>

theorem scan_keyword_run_length:
  assumes "input lx = c # letters @ rest"
    and "iswlower ct c"
    and "list_all (iswalpha ct) letters"
    and "\<not> iswalpha ct (lookahead (lx\<lparr> input := rest \<rparr>))"
    and "\<not> scope_colon c (letters @ rest)"
  shows "(length (c # letters) < KEYWORD_SIZE \<longrightarrow>
            scan_keyword ct kws s lx valid =
              (case scan_keyword_table valid kws (map word_of_int (c # letters)) FUNCTION of
                 Some t \<Rightarrow>
                   (True, s\<lparr> ignore_comments := ignore_comments_after (kws ! t) \<rparr>,
                    lx\<lparr> input := rest, position := position lx + length (c # letters),
                        result_symbol := KEYWORD t \<rparr>)
               | None \<Rightarrow>
                   if valid (KEYWORD (UNKNOWN_COMMAND kws))
                   then (True, s,
                         lx\<lparr> input := rest, position := position lx + length (c # letters),
                             result_symbol := KEYWORD (UNKNOWN_COMMAND kws) \<rparr>)
                   else (False, s,
                         lx\<lparr> input := rest, position := position lx + length (c # letters) \<rparr>)))
       \<and> (KEYWORD_SIZE \<le> length (c # letters) \<longrightarrow>
            \<not> fst (scan_keyword ct kws s lx valid)
            \<and> fst (snd (scan_keyword ct kws s lx valid)) = s)"
proof -
  define l1 where "l1 = lx\<lparr> input := letters @ rest, position := Suc (position lx) \<rparr>"
  have la: "lookahead lx = c" using assms(1) by (simp add: lookahead_def)
  have adv: "advance lx False = l1"
    using assms(1) by (simp add: advance_def l1_def)
  have nsc: "\<not> (lookahead lx \<noteq> 0 \<and>
               (lookahead lx = chr CHR ''g'' \<or> lookahead lx = chr CHR ''b'' \<or>
                lookahead lx = chr CHR ''l'' \<or> lookahead lx = chr CHR ''t'' \<or>
                lookahead lx = chr CHR ''w'' \<or> lookahead lx = chr CHR ''s'' \<or>
                lookahead lx = chr CHR ''v'')) \<or> lookahead l1 \<noteq> chr CHR '':''"
    using assms(5) la
    by (cases "letters @ rest") (auto simp: scope_colon_def l1_def lookahead_def chr_def)
  have sk: "scan_keyword ct kws s lx valid
      = scan_keyword_match ct kws s l1 (word_of_int c) valid"
    using nsc assms(2) la by (auto simp: scan_keyword_def Let_def adv)
  show ?thesis
  proof (intro conjI impI)
    assume short: "length (c # letters) < KEYWORD_SIZE"
    have run: "scan_keyword_run ct l1 [word_of_int c] =
        ([word_of_int c] @ map word_of_int letters,
         l1\<lparr> input := rest, position := position l1 + length letters \<rparr>)"
      using assms(3,4) short by (intro scan_keyword_run_short) (simp_all add: l1_def lookahead_def)
    have len: "length ([word_of_int c :: cchar] @ map word_of_int letters) \<noteq> KEYWORD_SIZE"
      using short by simp
    show "scan_keyword ct kws s lx valid =
              (case scan_keyword_table valid kws (map word_of_int (c # letters)) FUNCTION of
                 Some t \<Rightarrow>
                   (True, s\<lparr> ignore_comments := ignore_comments_after (kws ! t) \<rparr>,
                    lx\<lparr> input := rest, position := position lx + length (c # letters),
                        result_symbol := KEYWORD t \<rparr>)
               | None \<Rightarrow>
                   if valid (KEYWORD (UNKNOWN_COMMAND kws))
                   then (True, s,
                         lx\<lparr> input := rest, position := position lx + length (c # letters),
                             result_symbol := KEYWORD (UNKNOWN_COMMAND kws) \<rparr>)
                   else (False, s,
                         lx\<lparr> input := rest, position := position lx + length (c # letters) \<rparr>))"
      using len unfolding sk scan_keyword_match_def run
      by (simp add: l1_def split: option.splits)
  next
    assume long: "KEYWORD_SIZE \<le> length (c # letters)"
    have "length (fst (scan_keyword_run ct l1 [word_of_int c])) = KEYWORD_SIZE"
      using assms(3) long
      by (intro scan_keyword_run_full [where rest = rest]) (simp_all add: l1_def KEYWORD_SIZE_def)
    then obtain kw lx' where "scan_keyword_run ct l1 [word_of_int c] = (kw, lx')"
      and "length kw = KEYWORD_SIZE"
      by (cases "scan_keyword_run ct l1 [word_of_int c]") simp
    then show "\<not> fst (scan_keyword ct kws s lx valid)"
      and "fst (snd (scan_keyword ct kws s lx valid)) = s"
      by (simp_all add: sk scan_keyword_match_def)
  qed
qed

theorem scan_keyword_run_length_witness:
  "input (lexer_on (97 # replicate 28 97 @ chars '' x'')) = 97 # replicate 28 97 @ chars '' x''
   \<and> iswlower c_locale 97 \<and> list_all (iswalpha c_locale) (replicate 28 97)
   \<and> \<not> iswalpha c_locale
         (lookahead ((lexer_on (97 # replicate 28 97 @ chars '' x''))\<lparr> input := chars '' x'' \<rparr>))
   \<and> \<not> scope_colon 97 (replicate 28 97 @ chars '' x'')
   \<and> length (97 # replicate 28 (97::int)) < KEYWORD_SIZE
   \<and> scan_keyword c_locale [kw_function] state_EOF
        (lexer_on (97 # replicate 28 97 @ chars '' x'')) valid_kw
      = (True, state_EOF,
         (lexer_on (97 # replicate 28 97 @ chars '' x''))
           \<lparr> input := chars '' x'', position := 29, result_symbol := KEYWORD 1 \<rparr>)
   \<and> input (lexer_on (97 # replicate 29 97 @ chars '' x'')) = 97 # replicate 29 97 @ chars '' x''
   \<and> list_all (iswalpha c_locale) (replicate 29 97)
   \<and> \<not> iswalpha c_locale
         (lookahead ((lexer_on (97 # replicate 29 97 @ chars '' x''))\<lparr> input := chars '' x'' \<rparr>))
   \<and> \<not> scope_colon 97 (replicate 29 97 @ chars '' x'')
   \<and> KEYWORD_SIZE \<le> length (97 # replicate 29 (97::int))
   \<and> \<not> fst (scan_keyword c_locale [kw_function] state_EOF
               (lexer_on (97 # replicate 29 97 @ chars '' x'')) valid_kw)"
proof -
  have a1: "input (lexer_on (97 # replicate 28 97 @ chars '' x'')) = 97 # replicate 28 97 @ chars '' x''"
    and b1: "input (lexer_on (97 # replicate 29 97 @ chars '' x'')) = 97 # replicate 29 97 @ chars '' x''"
    by (simp_all add: lexer_on_def)
  have a2: "iswlower c_locale 97" by (simp add: c_locale_def)
  have a3: "list_all (iswalpha c_locale) (replicate 28 97)"
    and b3: "list_all (iswalpha c_locale) (replicate 29 97)"
    by (simp_all add: list_all_iff c_locale_def)
  have a4: "\<not> iswalpha c_locale
         (lookahead ((lexer_on (97 # replicate 28 97 @ chars '' x''))\<lparr> input := chars '' x'' \<rparr>))"
    and b4: "\<not> iswalpha c_locale
         (lookahead ((lexer_on (97 # replicate 29 97 @ chars '' x''))\<lparr> input := chars '' x'' \<rparr>))"
    by (simp_all add: lookahead_def chars_def c_locale_def)
  have a5: "\<not> scope_colon 97 (replicate 28 97 @ chars '' x'')"
    and b5: "\<not> scope_colon 97 (replicate 29 97 @ chars '' x'')"
    by (simp_all add: scope_colon_def chr_def)
  have a6: "length (97 # replicate 28 (97::int)) < KEYWORD_SIZE"
    and b6: "KEYWORD_SIZE \<le> length (97 # replicate 29 (97::int))"
    by (simp_all add: KEYWORD_SIZE_def)
  have tbl: "scan_keyword_table valid_kw [kw_function] (map word_of_int (97 # replicate 28 97)) FUNCTION
      = None"
    by code_simp
  have pos: "position (lexer_on (97 # replicate 28 97 @ chars '' x'')) = 0"
    by (simp add: lexer_on_def)
  have unk: "valid_kw (KEYWORD (UNKNOWN_COMMAND [kw_function]))" "UNKNOWN_COMMAND [kw_function] = 1"
    by (simp_all add: valid_kw_def UNKNOWN_COMMAND_def)
  show ?thesis
    using scan_keyword_run_length [OF a1 a2 a3 a4 a5, of "[kw_function]" state_EOF valid_kw]
      scan_keyword_run_length [OF b1 a2 b3 b4 b5, of "[kw_function]" state_EOF valid_kw]
      a1 a2 a3 a4 a5 a6 b1 b3 b4 b5 b6 tbl unk pos
    by simp
qed

text \<open>
  Claim C5 as stated has a run of exactly 30 letters matched.  With the unknown-command
  kind accepted, 30 letters \<^verbatim>\<open>a\<close> before a space give no match, and 29 give the
  unknown-command kind.
\<close>

theorem scan_keyword_run_length_counterexample:
  "tree_sitter_vim_external_scanner_scan c_locale [kw_function]
       tree_sitter_vim_external_scanner_create
       (lexer_on (replicate 30 97 @ chars '' x'')) valid_kw
     = Inr (False, tree_sitter_vim_external_scanner_create,
            \<lparr> input = chars '' x'', position = 30, token_start = 0, token_end = None,
              result_symbol = NO \<rparr>)
   \<and> tree_sitter_vim_external_scanner_scan c_locale [kw_function]
       tree_sitter_vim_external_scanner_create
       (lexer_on (replicate 29 97 @ chars '' x'')) valid_kw
     = Inr (True, tree_sitter_vim_external_scanner_create,
            \<lparr> input = chars '' x'', position = 29, token_start = 0, token_end = None,
              result_symbol = KEYWORD 1 \<rparr>)"
  by code_simp

lemma result_symbol_advance [simp]: "result_symbol (advance lx skip) = result_symbol lx"
  by (simp add: advance_def split: list.splits)

lemma result_symbol_mark_end [simp]: "result_symbol (mark_end lx) = result_symbol lx"
  by (simp add: mark_end_def)

lemma result_symbol_skip_space_tabs [simp]:
  "result_symbol (skip_space_tabs lx) = result_symbol lx"
proof (induction lx rule: skip_space_tabs.induct)
  case (1 lx)
  then show ?case by (subst skip_space_tabs.simps) simp
qed

lemma result_symbol_scan_rest_of_line [simp]:
  "result_symbol (scan_rest_of_line lx) = result_symbol lx"
proof (induction lx rule: scan_rest_of_line.induct)
  case (1 lx)
  then show ?case by (subst scan_rest_of_line.simps) simp
qed





lemma late_kind_simps [simp]:
  "\<not> late_kind NO" "\<not> late_kind INV" "\<not> late_kind CMD_SEPARATOR" "\<not> late_kind LINE_CONTINUATION"
  "\<not> late_kind SCRIPT_HEREDOC_MARKER" "\<not> late_kind LET_HEREDOC_MARKER" "\<not> late_kind HEREDOC_END"
  "\<not> late_kind SEP_FIRST" "\<not> late_kind SEP" "\<not> late_kind SCOPE_DICT" "\<not> late_kind SCOPE"
  "\<not> late_kind LINE_CONTINUATION_COMMENT" "\<not> late_kind BANG_FILTER"
  "late_kind COMMENT" "late_kind STRING" "late_kind (KEYWORD n)"
  by (simp_all add: late_kind_def)










section \<open>Reachable states and the round trip through the codec\<close>

lemma scanner_inv_updates [simp]:
  "scanner_inv (s\<lparr> ignore_comments := x \<rparr>) = scanner_inv s"
  "scanner_inv (s\<lparr> separator := y \<rparr>) = scanner_inv s"
  by (simp_all add: scanner_inv_def marker_text_def)

lemma length_try_lex_heredoc_marker_loop:
  "length marker \<le> HEREDOC_MARKER_LEN
     \<Longrightarrow> length (fst (try_lex_heredoc_marker_loop lx marker)) \<le> HEREDOC_MARKER_LEN"
proof (induction lx marker rule: try_lex_heredoc_marker_loop.induct)
  case (1 lx marker)
  show ?case
    using 1 by (subst try_lex_heredoc_marker_loop.simps) auto
qed

lemma dropWhile_strncpy_bytes:
  "dropWhile (\<lambda>c. c \<noteq> (0::cchar)) (takeWhile (\<lambda>c. c \<noteq> 0) xs @ replicate k 0) = replicate k 0"
proof -
  have "dropWhile (\<lambda>c. c \<noteq> (0::cchar)) (takeWhile (\<lambda>c. c \<noteq> 0) xs @ replicate k 0)
          = dropWhile (\<lambda>c. c \<noteq> (0::cchar)) (replicate k 0)"
    by (rule dropWhile_append2) (auto dest: set_takeWhileD)
  also have "\<dots> = replicate k 0" by (cases k) auto
  finally show ?thesis .
qed

lemma scanner_inv_captured:
  assumes "length (heredoc_marker s) = HEREDOC_MARKER_LEN"
    and "0 < length marker" and "length marker < HEREDOC_MARKER_LEN"
  shows "scanner_inv
           (s\<lparr> marker_len := of_nat (length marker),
               heredoc_marker :=
                 memset (strncpy (heredoc_marker s) marker (length marker)) (length marker) 0
                        (HEREDOC_MARKER_LEN - length marker) \<rparr>)"
proof -
  let ?m = "length marker"
  let ?pre = "takeWhile (\<lambda>c. c \<noteq> 0) marker"
  define X where "X = ?pre @ replicate (?m - length ?pre) 0"
  have pre: "length ?pre \<le> ?m" by (rule length_takeWhile_le)
  then have X_len: "length X = ?m" by (simp add: X_def)
  have u: "unat (of_nat ?m :: 8 word) = ?m"
    using assms(3) by (simp add: HEREDOC_MARKER_LEN_def unat_of_nat)
  have sc: "strncpy (heredoc_marker s) marker ?m = X @ drop ?m (heredoc_marker s)"
    by (simp add: strncpy_def Let_def X_def)
  have ms: "memset (X @ drop ?m (heredoc_marker s)) ?m 0 (HEREDOC_MARKER_LEN - ?m)
      = X @ replicate (HEREDOC_MARKER_LEN - ?m) 0"
    using X_len assms(1,3) by (simp add: memset_def)
  have cl: "list_all (\<lambda>c. c = 0) (dropWhile (\<lambda>c. c \<noteq> 0) X)"
    unfolding X_def by (simp only: dropWhile_strncpy_bytes) (simp add: list_all_iff)
  show ?thesis
    unfolding sc ms using X_len assms(3) u cl
    by (simp add: scanner_inv_def marker_text_def)
qed

lemma try_lex_heredoc_marker_inv:
  assumes "scanner_inv s"
  shows "scanner_inv (fst (snd (try_lex_heredoc_marker ct s lx)))"
proof (cases "try_lex_heredoc_marker_loop lx []")
  case (Pair marker lx')
  have "length (fst (try_lex_heredoc_marker_loop lx [])) \<le> HEREDOC_MARKER_LEN"
    by (rule length_try_lex_heredoc_marker_loop) simp
  with Pair have le: "length marker \<le> HEREDOC_MARKER_LEN" by simp
  have len: "length (heredoc_marker s) = HEREDOC_MARKER_LEN"
    using assms by (simp add: scanner_inv_def)
  show ?thesis
  proof (cases "iswlower ct (lookahead lx) \<or> length marker = HEREDOC_MARKER_LEN \<or> length marker = 0")
    case True
    then show ?thesis using assms Pair by (auto simp: try_lex_heredoc_marker_def)
  next
    case False
    then have "0 < length marker" "length marker < HEREDOC_MARKER_LEN" using le by auto
    from scanner_inv_captured [OF len this] False Pair show ?thesis
      by (simp add: try_lex_heredoc_marker_def Let_def)
  qed
qed

lemma scan_heredoc_end_inv:
  assumes "scanner_inv s"
  shows "scanner_inv (fst (snd (scan_heredoc_end s lx)))"
proof -
  have "scanner_inv (s\<lparr> marker_len := 0,
      heredoc_marker := memset (heredoc_marker s) 0 0 HEREDOC_MARKER_LEN \<rparr>)"
    using assms by (simp add: scanner_inv_def marker_text_def memset_def HEREDOC_MARKER_LEN_def)
  then show ?thesis
    using assms by (simp add: scan_heredoc_end_def Let_def split: prod.split bool.split)
qed

lemma scan_newline_inv:
  "scanner_inv s \<Longrightarrow> scanner_inv (fst (snd (scan_newline s lx valid)))"
  by (simp add: scan_newline_def Let_def)

lemma scan_keyword_match_inv:
  "scanner_inv s \<Longrightarrow> scanner_inv (fst (snd (scan_keyword_match ct kws s lx c0 valid)))"
  by (simp add: scan_keyword_match_def split: prod.split option.split)

lemma scan_keyword_inv:
  "scanner_inv s \<Longrightarrow> scanner_inv (fst (snd (scan_keyword ct kws s lx valid)))"
  by (simp add: scan_keyword_def Let_def scan_keyword_match_inv)

lemma scan_inv_case:
  "scanner_inv s \<Longrightarrow>
     (case tree_sitter_vim_external_scanner_scan ct kws s lexer valid of
        Inl e \<Rightarrow> True | Inr r \<Rightarrow> scanner_inv (fst (snd r)))"
  unfolding tree_sitter_vim_external_scanner_scan_def Let_def
  by (simp add: try_lex_heredoc_marker_inv scan_heredoc_end_inv
      scan_newline_inv scan_keyword_inv split_beta split: sum.split)

lemma scan_inv:
  assumes "tree_sitter_vim_external_scanner_scan ct kws s lexer valid = Inr (b, s', lx')"
    and "scanner_inv s"
  shows "scanner_inv s'"
  using scan_inv_case [OF assms(2), of ct kws lexer valid] assms(1) by simp

lemma deserialize_inv:
  assumes "scanner_inv s" and "scanner_inv p" and "3 + unat (marker_len s) \<le> length buffer"
  shows "scanner_inv (s\<lparr> heredoc_marker := marker_text s @ drop (unat (marker_len s)) (heredoc_marker p) \<rparr>)"
  using assms by (simp add: scanner_inv_def marker_text_def)

lemma buffer_fits:
  "scanner_inv s \<Longrightarrow> length buffer = TREE_SITTER_SERIALIZATION_BUFFER_SIZE
     \<Longrightarrow> 3 + unat (marker_len s) \<le> length buffer"
  by (simp add: scanner_inv_def HEREDOC_MARKER_LEN_def TREE_SITTER_SERIALIZATION_BUFFER_SIZE_def)

lemma reachable_inv: "reachable ct kws s \<Longrightarrow> scanner_inv s"
proof (induction rule: reachable.induct)
  case created
  show ?case by (rule scanner_inv_create)
next
  case (scanned s lexer valid b s' lexer')
  then show ?case using scan_inv by blast
next
  case (restored p s buffer s')
  have fit: "3 + unat (marker_len s) \<le> length buffer"
    using restored.IH(2) restored.hyps(3) by (rule buffer_fits)
  have len: "length (heredoc_marker p) = HEREDOC_MARKER_LEN"
    using restored.IH(1) by (simp add: scanner_inv_def)
  have "s' = s\<lparr> heredoc_marker := marker_text s @ drop (unat (marker_len s)) (heredoc_marker p) \<rparr>"
    using deserialize_serialized [OF restored.IH(2) len fit] restored.hyps(4) by simp
  then show ?case
    using deserialize_inv [OF restored.IH(2) restored.IH(1) fit] by simp
qed

text \<open>
  Claim C1.  For every reachable Scanner State \<open>s\<close>, and every reachable payload \<open>p\<close> the
  host restores into, deserializing the bytes produced by serializing \<open>s\<close> succeeds and
  yields a state equal to \<open>s\<close>: the same separator, the same suppress-comments flag, the
  same marker length and the same heredoc marker.  The bytes of the marker array past the
  marker are those of the payload; where they agree with those of \<open>s\<close> (restoring into
  \<open>s\<close> itself, or into a fresh state when \<open>s\<close> never was restored into), the result is
  \<open>s\<close> in every byte.
\<close>

theorem serialize_deserialize_roundtrip:
  assumes "reachable ct kws s" and "reachable ct kws p"
    and "length buffer = TREE_SITTER_SERIALIZATION_BUFFER_SIZE"
  shows "\<exists>s'. tree_sitter_vim_external_scanner_deserialize p (serialized s buffer) = Inr s'
           \<and> separator s' = separator s
           \<and> ignore_comments s' = ignore_comments s
           \<and> marker_len s' = marker_len s
           \<and> marker_text s' = marker_text s
           \<and> (drop (unat (marker_len s)) (heredoc_marker p)
                 = drop (unat (marker_len s)) (heredoc_marker s) \<longrightarrow> s' = s)"
proof -
  have inv_s: "scanner_inv s" and ip: "scanner_inv p"
    using assms(1,2) by (simp_all add: reachable_inv)
  have fit: "3 + unat (marker_len s) \<le> length buffer"
    using inv_s assms(3) by (rule buffer_fits)
  have len: "length (heredoc_marker p) = HEREDOC_MARKER_LEN"
    using ip by (simp add: scanner_inv_def)
  let ?s' = "s\<lparr> heredoc_marker := marker_text s @ drop (unat (marker_len s)) (heredoc_marker p) \<rparr>"
  have d: "tree_sitter_vim_external_scanner_deserialize p (serialized s buffer) = Inr ?s'"
    using inv_s len fit by (rule deserialize_serialized)
  have lm: "length (marker_text s) = unat (marker_len s)"
    using inv_s by (simp add: scanner_inv_def marker_text_def)
  have mt: "marker_text ?s' = marker_text s"
    using lm by (simp add: marker_text_def)
  have full: "?s' = s"
    if "drop (unat (marker_len s)) (heredoc_marker p) = drop (unat (marker_len s)) (heredoc_marker s)"
    using that by (simp add: marker_text_def)
  show ?thesis
    using d mt full by (intro exI [of _ ?s']) simp
qed

theorem serialize_deserialize_roundtrip_witness:
  "reachable c_locale [] state_let
   \<and> reachable c_locale [] tree_sitter_vim_external_scanner_create
   \<and> length (replicate 1024 (0::cchar)) = TREE_SITTER_SERIALIZATION_BUFFER_SIZE
   \<and> tree_sitter_vim_external_scanner_deserialize tree_sitter_vim_external_scanner_create
        (serialized state_let (replicate 1024 0)) = Inr state_let"
proof -
  have c: "reachable c_locale [] tree_sitter_vim_external_scanner_create"
    by (rule reachable.created)
  have "tree_sitter_vim_external_scanner_scan c_locale [] tree_sitter_vim_external_scanner_create
      (lexer_on (chars ''EOF'')) valid_let
    = Inr (True, state_let, \<lparr> input = [], position = 3, token_start = 0, token_end = None,
              result_symbol = LET_HEREDOC_MARKER \<rparr>)"
    by code_simp
  with c have s: "reachable c_locale [] state_let"
    by (rule reachable.scanned)
  have b: "length (replicate 1024 (0::cchar)) = TREE_SITTER_SERIALIZATION_BUFFER_SIZE"
    by (simp add: TREE_SITTER_SERIALIZATION_BUFFER_SIZE_def)
  have dr: "drop (unat (marker_len state_let)) (heredoc_marker tree_sitter_vim_external_scanner_create)
      = drop (unat (marker_len state_let)) (heredoc_marker state_let)"
    by (simp add: state_let_def tree_sitter_vim_external_scanner_create_def cstring_def
        HEREDOC_MARKER_LEN_def)
  show ?thesis
    using serialize_deserialize_roundtrip [OF s c b] s c b dr by auto
qed

end
